theory Spec2Isabelle
  imports Main "HOL-Library.Word"
begin

section \<open>Data model\<close>

text \<open>
  A JavaScript string is a sequence of UTF-16 code units; a \<open>Uint8Array\<close> (and the
  contents of a \<open>Blob\<close> or \<open>ArrayBuffer\<close>) is a sequence of bytes. JavaScript numbers
  are modelled as \<open>int\<close>: every number the two functions compute is an integer far
  below \<open>2 ^ 53\<close>, where doubles are exact.
\<close>

type_synonym code_unit = "16 word"
type_synonym jsstring = "code_unit list"
type_synonym byte = "8 word"
type_synonym bytes = "byte list"

text \<open>The two failures \<open>convertTextToZipBlob\<close> throws, named by what their messages say:
  \<open>"Resulting string is empty."\<close> and \<open>"Invalid Base64 content. ..."\<close>.\<close>

datatype convert_error = EmptyInputError | InvalidEncodingError

text \<open>The exceptions of the platform functions the code calls.\<close>

datatype js_error = RangeError | InvalidCharacterError

section \<open>Text to binary: \<open>convertTextToZipBlob\<close>\<close>

subsection \<open>\<open>textContent.split(/\r?\n/)\<close>\<close>

text \<open>
  The regular expression is tried at each position from the left: a line feed is a
  boundary of one code unit, a carriage return directly followed by a line feed is a
  boundary of two. Every other code unit belongs to the current line. The result is
  never empty: the empty string splits into one empty line.
\<close>

definition LF :: code_unit where "LF = 0x0A"
definition CR :: code_unit where "CR = 0x0D"

fun push_unit :: "code_unit \<Rightarrow> jsstring list \<Rightarrow> jsstring list" where
  "push_unit c [] = [[c]]"
| "push_unit c (l # ls) = (c # l) # ls"

fun split_lines :: "jsstring \<Rightarrow> jsstring list" where
  "split_lines [] = [[]]"
| "split_lines [c] = (if c = LF then [[], []] else [[c]])"
| "split_lines (c # d # cs) =
     (if c = LF then [] # split_lines (d # cs)
      else if c = CR \<and> d = LF then [] # split_lines cs
      else push_unit c (split_lines (d # cs)))"

subsection \<open>\<open>base64String.replace(/\s/g, '')\<close>\<close>

text \<open>The code units the class \<open>\s\<close> matches: the ECMAScript white space and line
  terminator code points.\<close>

definition js_whitespace :: "code_unit \<Rightarrow> bool" where
  "js_whitespace c \<longleftrightarrow>
     c \<in> {0x09, 0x0A, 0x0B, 0x0C, 0x0D, 0x20, 0xA0, 0x1680, 0x2028, 0x2029,
          0x202F, 0x205F, 0x3000, 0xFEFF}
     \<or> (0x2000 \<le> c \<and> c \<le> 0x200A)"

definition strip_whitespace :: "jsstring \<Rightarrow> jsstring" where
  "strip_whitespace s = filter (\<lambda>c. \<not> js_whitespace c) s"

subsection \<open>\<open>atob\<close>: the platform's forgiving base64 decoder\<close>

text \<open>
  \<open>atob\<close> is not code of the repository; it is the browser's function, specified by the
  HTML and Infra standards as "forgiving-base64 decode": remove ASCII whitespace; if the
  length is a multiple of four, remove one or two trailing \<open>=\<close>; fail if the length is
  then 1 modulo 4 or if any code unit is outside the alphabet; decode six bits per code
  unit, dropping the last 4 or 2 bits of an incomplete group. A failure is thrown as
  \<open>InvalidCharacterError\<close>. The result is a string of code units below 256.
\<close>

definition b64_alphabet :: "jsstring" where
  "b64_alphabet = map (\<lambda>c. of_nat (of_char c))
     ''ABCDEFGHIJKLMNOPQRSTUVWXYZabcdefghijklmnopqrstuvwxyz0123456789+/''"

definition b64_pad :: code_unit where "b64_pad = 0x3D"

definition ascii_whitespace :: "code_unit \<Rightarrow> bool" where
  "ascii_whitespace c \<longleftrightarrow> c \<in> {0x09, 0x0A, 0x0C, 0x0D, 0x20}"

fun index_of :: "code_unit \<Rightarrow> jsstring \<Rightarrow> nat option" where
  "index_of c [] = None"
| "index_of c (a # as) =
     (if c = a then Some 0 else map_option Suc (index_of c as))"

definition b64_value :: "code_unit \<Rightarrow> nat option" where
  "b64_value c = index_of c b64_alphabet"

definition strip_padding :: "jsstring \<Rightarrow> jsstring" where
  "strip_padding s =
     (if length s mod 4 = 0 \<and> s \<noteq> [] \<and> last s = b64_pad then
        (if butlast s \<noteq> [] \<and> last (butlast s) = b64_pad then butlast (butlast s)
         else butlast s)
      else s)"

fun decode_sextets :: "nat list \<Rightarrow> nat list" where
  "decode_sextets (a # b # c # d # rest) =
     (let n = a * 262144 + b * 4096 + c * 64 + d
      in n div 65536 # (n div 256) mod 256 # n mod 256 # decode_sextets rest)"
| "decode_sextets [a, b, c] =
     (let n = (a * 4096 + b * 64 + c) div 4 in [n div 256, n mod 256])"
| "decode_sextets [a, b] = [(a * 64 + b) div 16]"
| "decode_sextets _ = []"

fun those_values :: "jsstring \<Rightarrow> nat list option" where
  "those_values [] = Some []"
| "those_values (c # cs) =
     (case b64_value c of None \<Rightarrow> None
      | Some v \<Rightarrow> map_option ((#) v) (those_values cs))"

definition atob :: "jsstring \<Rightarrow> js_error + jsstring" where
  "atob data =
     (let d = strip_padding (filter (\<lambda>c. \<not> ascii_whitespace c) data)
      in if length d mod 4 = 1 then Inl InvalidCharacterError
         else (case those_values d of
                 None \<Rightarrow> Inl InvalidCharacterError
               | Some vs \<Rightarrow> Inr (map of_nat (decode_sextets vs))))"

subsection \<open>\<open>convertTextToZipBlob\<close>\<close>

text \<open>
  Split, reverse, join with the empty separator, strip whitespace, reject the empty
  string, decode with \<open>atob\<close>, and copy each code unit into a \<open>Uint8Array\<close> (a store
  into a byte array keeps the low eight bits). Whatever the \<open>try\<close> block throws is
  rethrown as the invalid-base64 error.
\<close>

definition convertTextToZipBlob :: "jsstring \<Rightarrow> convert_error + bytes" where
  "convertTextToZipBlob textContent =
     (let lines = split_lines textContent;
          reversedLines = rev lines;
          base64String = strip_whitespace (concat reversedLines)
      in if base64String = [] then Inl EmptyInputError
         else (case atob base64String of
                 Inl _ \<Rightarrow> Inl InvalidEncodingError
               | Inr binaryString \<Rightarrow> Inr (map ucast binaryString)))"

section \<open>Binary to entry names: \<open>getZipFileList\<close>\<close>

subsection \<open>Platform reads\<close>

text \<open>
  \<open>DataView.getUint16\<close> and \<open>getUint32\<close> with \<open>littleEndian = true\<close>: a read that
  starts below 0 or ends past the view throws \<open>RangeError\<close>.
\<close>

definition getUint16 :: "bytes \<Rightarrow> int \<Rightarrow> js_error + int" where
  "getUint16 view i =
     (if i < 0 \<or> i + 2 > int (length view) then Inl RangeError
      else Inr (uint (view ! nat i) + 256 * uint (view ! (nat i + 1))))"

definition getUint32 :: "bytes \<Rightarrow> int \<Rightarrow> js_error + int" where
  "getUint32 view i =
     (if i < 0 \<or> i + 4 > int (length view) then Inl RangeError
      else Inr (uint (view ! nat i) + 256 * uint (view ! (nat i + 1))
                + 65536 * uint (view ! (nat i + 2)) + 16777216 * uint (view ! (nat i + 3))))"

text \<open>\<open>Uint8Array.subarray(begin, end)\<close>: a negative index counts from the end, both
  indices are clamped to the array, and an empty range gives an empty array. It never
  throws.\<close>

definition subarray :: "bytes \<Rightarrow> int \<Rightarrow> int \<Rightarrow> bytes" where
  "subarray u8 b e =
     (let len = int (length u8);
          rb = (if b < 0 then max (len + b) 0 else min b len);
          re = (if e < 0 then max (len + e) 0 else min e len)
      in take (nat (re - rb)) (drop (nat rb) u8))"

subsection \<open>\<open>new TextDecoder("utf-8").decode\<close>\<close>

text \<open>
  The decoder of the Encoding standard, in its default (non-fatal) mode. The handler keeps
  the code point under construction, the bytes seen and needed, and the bounds of the next
  continuation byte. A byte that cannot start or continue a sequence gives U+FFFD; a byte
  that fails to continue a sequence is read again as the start of the next one; input
  that ends inside a sequence gives one U+FFFD. The decoder never throws.
\<close>

function utf8_run :: "nat \<Rightarrow> nat \<Rightarrow> nat \<Rightarrow> nat \<Rightarrow> nat \<Rightarrow> nat list \<Rightarrow> nat list" where
  "utf8_run cp seen needed lo hi [] = (if needed \<noteq> 0 then [0xFFFD] else [])"
| "utf8_run cp seen needed lo hi (b # bs) =
     (if needed = 0 then
        (if b \<le> 0x7F then b # utf8_run 0 0 0 0x80 0xBF bs
         else if 0xC2 \<le> b \<and> b \<le> 0xDF then utf8_run (b mod 32) 0 1 0x80 0xBF bs
         else if 0xE0 \<le> b \<and> b \<le> 0xEF then
           utf8_run (b mod 16) 0 2 (if b = 0xE0 then 0xA0 else 0x80)
                    (if b = 0xED then 0x9F else 0xBF) bs
         else if 0xF0 \<le> b \<and> b \<le> 0xF4 then
           utf8_run (b mod 8) 0 3 (if b = 0xF0 then 0x90 else 0x80)
                    (if b = 0xF4 then 0x8F else 0xBF) bs
         else 0xFFFD # utf8_run 0 0 0 0x80 0xBF bs)
      else if b < lo \<or> hi < b then 0xFFFD # utf8_run 0 0 0 0x80 0xBF (b # bs)
      else (let cp' = cp * 64 + b mod 64
            in if seen + 1 \<noteq> needed then utf8_run cp' (seen + 1) needed 0x80 0xBF bs
               else cp' # utf8_run 0 0 0 0x80 0xBF bs))"
  by pat_completeness auto
termination
  by (relation "measure (\<lambda>(cp, seen, needed, lo, hi, bs).
        2 * length bs + (if needed = 0 then 0 else 1))") auto

text \<open>Without \<open>ignoreBOM\<close>, a leading U+FEFF of the output is dropped.\<close>

fun strip_bom :: "nat list \<Rightarrow> nat list" where
  "strip_bom [] = []"
| "strip_bom (c # cs) = (if c = 0xFEFF then cs else c # cs)"

text \<open>The result is a JavaScript string: a code point above U+FFFF is a surrogate pair.\<close>

definition to_utf16 :: "nat \<Rightarrow> jsstring" where
  "to_utf16 c =
     (if c < 0x10000 then [of_nat c]
      else [of_nat (0xD800 + (c - 0x10000) div 1024), of_nat (0xDC00 + (c - 0x10000) mod 1024)])"

definition utf8_decode :: "bytes \<Rightarrow> jsstring" where
  "utf8_decode bs = concat (map to_utf16 (strip_bom (utf8_run 0 0 0 0x80 0xBF (map unat bs))))"

subsection \<open>The backward search for the end-of-central-directory record\<close>

text \<open>
  \<open>for (let i = len - 22; i >= len - maxScan; i--)\<close>: the value of \<open>eocdOffset\<close> after the
  loop, \<open>-1\<close> when no offset matched; \<open>lo\<close> is \<open>len - maxScan\<close>.
\<close>

function scan_eocd :: "bytes \<Rightarrow> int \<Rightarrow> int \<Rightarrow> js_error + int" where
  "scan_eocd view lo i =
     (if i \<ge> lo then
        (case getUint32 view i of
           Inl e \<Rightarrow> Inl e
         | Inr v \<Rightarrow> if v = 0x06054b50 then Inr i else scan_eocd view lo (i - 1))
      else Inr (- 1))"
  by pat_completeness auto
termination
  by (relation "measure (\<lambda>(view, lo, i). nat (i - lo + 1))") auto

subsection \<open>The walk over the central directory\<close>

text \<open>
  \<open>for (let i = 0; i < entriesCount; i++)\<close> with the mutable \<open>offset\<close> and \<open>files\<close>
  passed as state; a \<open>break\<close> returns the files collected so far.
\<close>

function walk_entries :: "bytes \<Rightarrow> int \<Rightarrow> int \<Rightarrow> int \<Rightarrow> jsstring list \<Rightarrow> js_error + jsstring list" where
  "walk_entries view entriesCount i offset files =
     (if i < entriesCount then
        (if offset + 46 > int (length view) then Inr files
         else (case getUint32 view offset of
            Inl e \<Rightarrow> Inl e
          | Inr sig \<Rightarrow>
              if sig \<noteq> 0x02014b50 then Inr files
              else (case getUint16 view (offset + 28) of
                 Inl e \<Rightarrow> Inl e
               | Inr fileNameLen \<Rightarrow>
                  (case getUint16 view (offset + 30) of
                     Inl e \<Rightarrow> Inl e
                   | Inr extraFieldLen \<Rightarrow>
                      (case getUint16 view (offset + 32) of
                         Inl e \<Rightarrow> Inl e
                       | Inr fileCommentLen \<Rightarrow>
                          (let nameBytes = subarray view (offset + 46) (offset + 46 + fileNameLen);
                               fileName = utf8_decode nameBytes
                           in walk_entries view entriesCount (i + 1)
                                (offset + 46 + fileNameLen + extraFieldLen + fileCommentLen)
                                (files @ [fileName])))))))
      else Inr files)"
  by pat_completeness auto
termination
  by (relation "measure (\<lambda>(view, entriesCount, i, offset, files). nat (entriesCount - i))") auto

subsection \<open>\<open>getZipFileList\<close>\<close>

text \<open>The body of the \<open>try\<close> block: \<open>Inl\<close> is an exception on its way to the \<open>catch\<close>.\<close>

definition getZipFileList_try :: "bytes \<Rightarrow> js_error + jsstring list" where
  "getZipFileList_try view =
     (let len = int (length view);
          maxScan = min len (65535 + 22)
      in (case scan_eocd view (len - maxScan) (len - 22) of
            Inl e \<Rightarrow> Inl e
          | Inr eocdOffset \<Rightarrow>
              if eocdOffset = - 1 then Inr []
              else (case getUint16 view (eocdOffset + 10) of
                 Inl e \<Rightarrow> Inl e
               | Inr entriesCount \<Rightarrow>
                  (case getUint32 view (eocdOffset + 16) of
                     Inl e \<Rightarrow> Inl e
                   | Inr centralDirOffset \<Rightarrow>
                       walk_entries view entriesCount 0 centralDirOffset []))))"

text \<open>The \<open>catch\<close> turns any exception into the empty list.\<close>

definition getZipFileList :: "bytes \<Rightarrow> jsstring list" where
  "getZipFileList view = (case getZipFileList_try view of Inl _ \<Rightarrow> [] | Inr files \<Rightarrow> files)"

section \<open>Notions used to state the properties\<close>

text \<open>
  Pure little-endian reads (meaningful where the bytes read lie inside the buffer), the
  offsets the backward search ranges over, in the order it visits them, and the three
  things the walk does at a cursor: accept the header there, name it, and move on.
\<close>

definition le16 :: "bytes \<Rightarrow> int \<Rightarrow> int" where
  "le16 view i = uint (view ! nat i) + 256 * uint (view ! (nat i + 1))"

definition le32 :: "bytes \<Rightarrow> int \<Rightarrow> int" where
  "le32 view i = uint (view ! nat i) + 256 * uint (view ! (nat i + 1))
                + 65536 * uint (view ! (nat i + 2)) + 16777216 * uint (view ! (nat i + 3))"

definition eocd_candidates :: "bytes \<Rightarrow> int list" where
  "eocd_candidates view =
     (let len = int (length view)
      in rev [max 0 (len - min len (65535 + 22)) .. len - 22])"

definition eocd_signature_at :: "bytes \<Rightarrow> int \<Rightarrow> bool" where
  "eocd_signature_at view i \<longleftrightarrow> le32 view i = 0x06054b50"

definition hdr_ok :: "bytes \<Rightarrow> int \<Rightarrow> bool" where
  "hdr_ok view off \<longleftrightarrow> 0 \<le> off \<and> off + 46 \<le> int (length view) \<and> le32 view off = 0x02014b50"

definition hdr_name :: "bytes \<Rightarrow> int \<Rightarrow> jsstring" where
  "hdr_name view off = utf8_decode (subarray view (off + 46) (off + 46 + le16 view (off + 28)))"

definition hdr_next :: "bytes \<Rightarrow> int \<Rightarrow> int" where
  "hdr_next view off = off + 46 + le16 view (off + 28) + le16 view (off + 30) + le16 view (off + 32)"

definition nth_cursor :: "bytes \<Rightarrow> int \<Rightarrow> nat \<Rightarrow> int" where
  "nth_cursor view start j = (hdr_next view ^^ j) start"

text \<open>
  Well-formed UTF-8, as the Unicode standard tabulates it: a byte up to \<open>0x7F\<close>
  alone; a lead byte \<open>0xC2..0xDF\<close>, \<open>0xE0..0xEF\<close> or \<open>0xF0..0xF4\<close> followed by
  one, two or three continuation bytes \<open>0x80..0xBF\<close>, where the first continuation is
  at least \<open>0xA0\<close> after \<open>0xE0\<close>, at most \<open>0x9F\<close> after \<open>0xED\<close>, at least
  \<open>0x90\<close> after \<open>0xF0\<close> and at most \<open>0x8F\<close> after \<open>0xF4\<close>. \<open>pending\<close>
  counts the continuation bytes still due; \<open>lo\<close> and \<open>hi\<close> bound the next one.
\<close>

fun wf_utf8 :: "nat \<Rightarrow> nat \<Rightarrow> nat \<Rightarrow> nat list \<Rightarrow> bool" where
  "wf_utf8 pending lo hi [] \<longleftrightarrow> pending = 0"
| "wf_utf8 pending lo hi (b # bs) \<longleftrightarrow>
     (if pending = 0 then
        (if b \<le> 0x7F then wf_utf8 0 0x80 0xBF bs
         else if 0xC2 \<le> b \<and> b \<le> 0xDF then wf_utf8 1 0x80 0xBF bs
         else if b = 0xE0 then wf_utf8 2 0xA0 0xBF bs
         else if b = 0xED then wf_utf8 2 0x80 0x9F bs
         else if 0xE1 \<le> b \<and> b \<le> 0xEF then wf_utf8 2 0x80 0xBF bs
         else if b = 0xF0 then wf_utf8 3 0x90 0xBF bs
         else if b = 0xF4 then wf_utf8 3 0x80 0x8F bs
         else if 0xF1 \<le> b \<and> b \<le> 0xF3 then wf_utf8 3 0x80 0xBF bs
         else False)
      else lo \<le> b \<and> b \<le> hi \<and> wf_utf8 (pending - 1) 0x80 0xBF bs)"

definition well_formed_utf8 :: "bytes \<Rightarrow> bool" where
  "well_formed_utf8 bs \<longleftrightarrow> wf_utf8 0 0x80 0xBF (map unat bs)"

subsection \<open>The layout of a well-formed central directory\<close>

text \<open>
  The byte layout of a central-directory header and of the end-of-central-directory
  record, as the format fixes them: the signature, 24 bytes of fixed fields, the three
  lengths, 12 more bytes of fixed fields, then name, extra field and comment. These
  encoders are not code of the repository; they say what a well-formed buffer is.
\<close>

record cd_entry =
  ce_fixed1 :: bytes
  ce_name :: bytes
  ce_extra :: bytes
  ce_comment :: bytes
  ce_fixed2 :: bytes

definition le16_bytes :: "nat \<Rightarrow> bytes" where
  "le16_bytes n = [of_nat (n mod 256), of_nat (n div 256)]"

definition le32_bytes :: "nat \<Rightarrow> bytes" where
  "le32_bytes n = [of_nat (n mod 256), of_nat (n div 256 mod 256),
                   of_nat (n div 65536 mod 256), of_nat (n div 16777216)]"

definition encode_entry :: "cd_entry \<Rightarrow> bytes" where
  "encode_entry h =
     [0x50, 0x4B, 0x01, 0x02] @ ce_fixed1 h
     @ le16_bytes (length (ce_name h)) @ le16_bytes (length (ce_extra h))
     @ le16_bytes (length (ce_comment h)) @ ce_fixed2 h
     @ ce_name h @ ce_extra h @ ce_comment h"


definition eocd_record :: "nat \<Rightarrow> nat \<Rightarrow> nat \<Rightarrow> bytes" where
  "eocd_record count cdsize off =
     [0x50, 0x4B, 0x05, 0x06, 0, 0, 0, 0] @ le16_bytes count @ le16_bytes count
     @ le32_bytes cdsize @ le32_bytes off @ [0, 0]"

subsection \<open>Example buffers\<close>

definition test_entry :: cd_entry where
  "test_entry = \<lparr>ce_fixed1 = [0, 0, 0, 0, 0, 0, 0, 0, 0, 0, 0, 0, 0, 0, 0, 0, 0, 0, 0, 0, 0, 0, 0, 0],
     ce_name = [0x74, 0x65, 0x73, 0x74, 0x2E, 0x74, 0x78, 0x74],
     ce_extra = [], ce_comment = [],
     ce_fixed2 = [0, 0, 0, 0, 0, 0, 0, 0, 0, 0, 0, 0]\<rparr>"


definition overdeclared_archive :: bytes where
  "overdeclared_archive = encode_entry test_entry @ eocd_record 3 54 0"

definition two_signatures :: bytes where
  "two_signatures = [0x50, 0x4B, 0x05, 0x06, 0x50, 0x4B, 0x05, 0x06,
     0, 0, 0, 0, 0, 0, 0, 0, 0, 0, 0, 0, 0, 0, 0, 0, 0, 0, 0]"

definition no_signature :: bytes where
  "no_signature = [0, 0, 0, 0, 0, 0, 0, 0, 0, 0, 0, 0, 0, 0, 0, 0, 0, 0, 0, 0, 0, 0, 0]"

definition long_name_header :: bytes where
  "long_name_header = [0x50, 0x4B, 0x01, 0x02,
     0, 0, 0, 0, 0, 0, 0, 0, 0, 0, 0, 0, 0, 0, 0, 0, 0, 0, 0, 0, 0, 0, 0, 0,
     30, 0, 0, 0, 0, 0,
     0, 0, 0, 0, 0, 0, 0, 0, 0, 0, 0, 0]"

definition long_name_archive :: bytes where
  "long_name_archive = encode_entry test_entry @ long_name_header @ eocd_record 2 100 0"

definition broken_name_entry :: cd_entry where
  "broken_name_entry = test_entry\<lparr>ce_name := [0x61, 0xFF, 0x62]\<rparr>"

definition broken_name_archive :: bytes where
  "broken_name_archive = encode_entry broken_name_entry @ eocd_record 1 49 0"

subsection \<open>The producer's side of the text\<close>

text \<open>
  The string the conversion decodes, as a function of the text; and what the producer of
  a text does, which is not code of the repository: it encodes bytes in base64 with the
  alphabet and padding of RFC 4648 (three bytes to four characters, \<open>=\<close> for a missing
  byte), and puts a line break, one for each boundary, between the lines (\<open>join_seps\<close>). \<open>b64_sextets\<close> and
  \<open>b64_padding\<close> are the two parts of an encoding: the six-bit values and the trailing
  padding. \<open>rfc4648_valid\<close> is strict validity: a length that is a multiple of four,
  characters of the alphabet, and at most two \<open>=\<close>, all at the end.
\<close>

definition stripped_content :: "jsstring \<Rightarrow> jsstring" where
  "stripped_content t = strip_whitespace (concat (rev (split_lines t)))"

fun join_seps :: "jsstring list \<Rightarrow> jsstring list \<Rightarrow> jsstring" where
  "join_seps seps [] = []"
| "join_seps seps [l] = l"
| "join_seps [] (l # l' # ls) = l @ join_seps [] (l' # ls)"
| "join_seps (s # seps) (l # l' # ls) = l @ s @ join_seps seps (l' # ls)"

definition b64_char :: "nat \<Rightarrow> code_unit" where
  "b64_char v = b64_alphabet ! v"

fun b64_encode :: "bytes \<Rightarrow> jsstring" where
  "b64_encode [] = []"
| "b64_encode [x] =
     (let a = unat x
      in [b64_char (a div 4), b64_char (a mod 4 * 16), b64_pad, b64_pad])"
| "b64_encode [x, y] =
     (let a = unat x; b = unat y
      in [b64_char (a div 4), b64_char (a mod 4 * 16 + b div 16),
          b64_char (b mod 16 * 4), b64_pad])"
| "b64_encode (x # y # z # rest) =
     (let a = unat x; b = unat y; c = unat z
      in b64_char (a div 4) # b64_char (a mod 4 * 16 + b div 16)
         # b64_char (b mod 16 * 4 + c div 64) # b64_char (c mod 64) # b64_encode rest)"

fun b64_sextets :: "bytes \<Rightarrow> nat list" where
  "b64_sextets [] = []"
| "b64_sextets [x] = (let a = unat x in [a div 4, a mod 4 * 16])"
| "b64_sextets [x, y] =
     (let a = unat x; b = unat y in [a div 4, a mod 4 * 16 + b div 16, b mod 16 * 4])"
| "b64_sextets (x # y # z # rest) =
     (let a = unat x; b = unat y; c = unat z
      in a div 4 # (a mod 4 * 16 + b div 16) # (b mod 16 * 4 + c div 64) # c mod 64
         # b64_sextets rest)"

fun b64_padding :: "bytes \<Rightarrow> jsstring" where
  "b64_padding [] = []"
| "b64_padding [x] = [b64_pad, b64_pad]"
| "b64_padding [x, y] = [b64_pad]"
| "b64_padding (x # y # z # rest) = b64_padding rest"

definition rfc4648_valid :: "jsstring \<Rightarrow> bool" where
  "rfc4648_valid s \<longleftrightarrow>
     length s mod 4 = 0
     \<and> list_all (\<lambda>c. c \<in> set b64_alphabet) (takeWhile (\<lambda>c. c \<noteq> b64_pad) s)
     \<and> dropWhile (\<lambda>c. c \<noteq> b64_pad) s \<in> {[], [b64_pad], [b64_pad, b64_pad]}"

section \<open>The reads of the scanner stay inside the buffer\<close>

lemma getUint32_in: "0 \<le> i \<Longrightarrow> i + 4 \<le> int (length view) \<Longrightarrow> getUint32 view i = Inr (le32 view i)"
  by (simp add: getUint32_def le32_def)

lemma getUint16_in: "0 \<le> i \<Longrightarrow> i + 2 \<le> int (length view) \<Longrightarrow> getUint16 view i = Inr (le16 view i)"
  by (simp add: getUint16_def le16_def)

lemma le16_range: "0 \<le> le16 view i \<and> le16 view i < 65536"
proof -
  have "uint (view ! nat i) < 256" "uint (view ! (nat i + 1)) < 256"
    using uint_bounded [of "view ! nat i"] uint_bounded [of "view ! (nat i + 1)"] by simp_all
  then show ?thesis by (simp add: le16_def)
qed

lemma le32_nonneg: "0 \<le> le32 view i"
  by (simp add: le32_def)

declare scan_eocd.simps [simp del] walk_entries.simps [simp del]

lemma scan_eocd_find:
  "0 \<le> lo \<Longrightarrow> i + 4 \<le> int (length view) \<Longrightarrow>
   scan_eocd view lo i =
     Inr (case List.find (eocd_signature_at view) (rev [lo..i]) of None \<Rightarrow> - 1 | Some e \<Rightarrow> e)"
proof (induction view lo i rule: scan_eocd.induct)
  case (1 view lo i)
  show ?case
  proof (cases "lo \<le> i")
    case False
    then show ?thesis by (subst scan_eocd.simps) simp
  next
    case True
    then have up: "[lo..i] = [lo..i - 1] @ [i]" by (simp add: upto_rec2)
    have rd: "getUint32 view i = Inr (le32 view i)"
      using True "1.prems" by (simp add: getUint32_in)
    show ?thesis
    proof (cases "le32 view i = 0x06054b50")
      case True
      with \<open>lo \<le> i\<close> rd up show ?thesis
        by (subst scan_eocd.simps) (simp add: eocd_signature_at_def)
    next
      case False
      have "scan_eocd view lo (i - 1) =
        Inr (case List.find (eocd_signature_at view) (rev [lo..i - 1]) of None \<Rightarrow> - 1 | Some e \<Rightarrow> e)"
        using "1.IH" [OF True rd False] "1.prems" by simp
      with False \<open>lo \<le> i\<close> rd up show ?thesis
        by (subst scan_eocd.simps) (simp add: eocd_signature_at_def)
    qed
  qed
qed

lemma find_candidates_range:
  "List.find P (eocd_candidates view) = Some e \<Longrightarrow> 0 \<le> e \<and> e + 22 \<le> int (length view)"
proof -
  assume "List.find P (eocd_candidates view) = Some e"
  then have "e \<in> set (eocd_candidates view)"
    by (auto simp: find_Some_iff)
  then show ?thesis
    by (auto simp: eocd_candidates_def Let_def)
qed

lemma scan_eocd_top:
  "scan_eocd view (int (length view) - min (int (length view)) (65535 + 22)) (int (length view) - 22)
   = Inr (case List.find (eocd_signature_at view) (eocd_candidates view) of None \<Rightarrow> - 1 | Some e \<Rightarrow> e)"
proof -
  have "max 0 (int (length view) - min (int (length view)) (65535 + 22))
        = int (length view) - min (int (length view)) (65535 + 22)" by simp
  then show ?thesis
    using scan_eocd_find [of "int (length view) - min (int (length view)) (65535 + 22)"
        "int (length view) - 22" view]
    by (simp add: eocd_candidates_def Let_def)
qed

lemma try_find:
  "getZipFileList_try view =
     (case List.find (eocd_signature_at view) (eocd_candidates view) of
        None \<Rightarrow> Inr []
      | Some e \<Rightarrow> walk_entries view (le16 view (e + 10)) 0 (le32 view (e + 16)) [])"
proof (cases "List.find (eocd_signature_at view) (eocd_candidates view)")
  case None
  then show ?thesis
    unfolding getZipFileList_try_def Let_def scan_eocd_top by simp
next
  case (Some e)
  then have r: "0 \<le> e" "e + 22 \<le> int (length view)"
    using find_candidates_range by blast+
  then have "getUint16 view (e + 10) = Inr (le16 view (e + 10))"
    "getUint32 view (e + 16) = Inr (le32 view (e + 16))"
    by (simp_all add: getUint16_in getUint32_in)
  with Some r show ?thesis
    unfolding getZipFileList_try_def Let_def scan_eocd_top by simp
qed

lemma walk_done: "\<not> i < n \<Longrightarrow> walk_entries view n i off files = Inr files"
  by (subst walk_entries.simps) simp

lemma walk_stop: "0 \<le> off \<Longrightarrow> \<not> hdr_ok view off \<Longrightarrow> walk_entries view n i off files = Inr files"
  by (subst walk_entries.simps) (auto simp: hdr_ok_def getUint32_in)

lemma walk_step:
  assumes "hdr_ok view off" "i < n"
  shows "walk_entries view n i off files =
         walk_entries view n (i + 1) (hdr_next view off) (files @ [hdr_name view off])"
proof -
  from assms(1) have b: "0 \<le> off" "off + 46 \<le> int (length view)" "le32 view off = 0x02014b50"
    by (simp_all add: hdr_ok_def)
  then have rd: "getUint32 view off = Inr 0x02014b50"
    "getUint16 view (off + 28) = Inr (le16 view (off + 28))"
    "getUint16 view (off + 30) = Inr (le16 view (off + 30))"
    "getUint16 view (off + 32) = Inr (le16 view (off + 32))"
    by (simp_all add: getUint32_in getUint16_in)
  from b(2) have nb: "\<not> int (length view) < off + 46" by simp
  show ?thesis
    by (subst walk_entries.simps) (simp add: rd nb assms(2) hdr_name_def hdr_next_def Let_def)
qed

lemma hdr_next_ge: "off \<le> hdr_next view off"
  using le16_range [of view "off + 28"] le16_range [of view "off + 30"]
    le16_range [of view "off + 32"]
  by (simp add: hdr_next_def)

lemma nth_cursor_ge: "start \<le> nth_cursor view start j"
proof (induction j)
  case 0
  show ?case by (simp add: nth_cursor_def)
next
  case (Suc j)
  have "nth_cursor view start (Suc j) = hdr_next view (nth_cursor view start j)"
    by (simp add: nth_cursor_def)
  with Suc hdr_next_ge [of "nth_cursor view start j" view] show ?case by simp
qed

lemma walk_total: "0 \<le> off \<Longrightarrow> \<exists>fs. walk_entries view n i off files = Inr fs"
proof (induction "nat (n - i)" arbitrary: i off files)
  case 0
  then show ?case by (simp add: walk_done)
next
  case (Suc m)
  then have lt: "i < n" by linarith
  show ?case
  proof (cases "hdr_ok view off")
    case False
    with Suc.prems show ?thesis by (simp add: walk_stop)
  next
    case True
    have "m = nat (n - (i + 1))" using Suc.hyps(2) by linarith
    moreover have "0 \<le> hdr_next view off"
      using Suc.prems hdr_next_ge [of off view] by linarith
    ultimately have "\<exists>fs. walk_entries view n (i + 1) (hdr_next view off)
        (files @ [hdr_name view off]) = Inr fs"
      by (rule Suc.hyps(1))
    then show ?thesis by (simp add: walk_step [OF True lt])
  qed
qed

lemma walk_prefix:
  assumes "\<forall>j<k. hdr_ok view (nth_cursor view start j)" "int k \<le> n - i"
  shows "walk_entries view n i start files =
         walk_entries view n (i + int k) (nth_cursor view start k)
           (files @ map (\<lambda>j. hdr_name view (nth_cursor view start j)) [0..<k])"
  using assms
proof (induction k)
  case 0
  show ?case by (simp add: nth_cursor_def)
next
  case (Suc k)
  have ok: "hdr_ok view (nth_cursor view start k)" using Suc.prems(1) by simp
  have lt: "i + int k < n" using Suc.prems(2) by simp
  have nx: "nth_cursor view start (Suc k) = hdr_next view (nth_cursor view start k)"
    by (simp add: nth_cursor_def)
  have "walk_entries view n i start files =
        walk_entries view n (i + int k) (nth_cursor view start k)
           (files @ map (\<lambda>j. hdr_name view (nth_cursor view start j)) [0..<k])"
    using Suc by simp
  also have "\<dots> = walk_entries view n (i + int k + 1) (nth_cursor view start (Suc k))
           ((files @ map (\<lambda>j. hdr_name view (nth_cursor view start j)) [0..<k])
             @ [hdr_name view (nth_cursor view start k)])"
    by (simp only: walk_step [OF ok lt] nx)
  finally show ?case by (simp add: ac_simps)
qed

lemma try_total: "\<exists>files. getZipFileList_try view = Inr files"
proof (cases "List.find (eocd_signature_at view) (eocd_candidates view)")
  case None
  then show ?thesis by (simp add: try_find)
next
  case (Some e)
  have "\<exists>fs. walk_entries view (le16 view (e + 10)) 0 (le32 view (e + 16)) [] = Inr fs"
    by (rule walk_total) (rule le32_nonneg)
  with Some show ?thesis by (simp add: try_find)
qed

text \<open>
  C2. Totality of the scanner: for every buffer, of any length and contents, the body of
  \<open>getZipFileList\<close> completes without an exception (the \<open>catch\<close> is never reached)
  and the function returns a list of names, possibly empty.
\<close>

theorem getZipFileList_total:
  "\<exists>files. getZipFileList_try view = Inr files \<and> getZipFileList view = files"
  using try_total [of view] by (auto simp: getZipFileList_def)

section \<open>Locating the end-of-central-directory record\<close>

lemma find_rev_upto:
  "lo \<le> e \<Longrightarrow> e \<le> hi \<Longrightarrow> P e \<Longrightarrow> (\<forall>j. e < j \<and> j \<le> hi \<longrightarrow> \<not> P j) \<Longrightarrow>
   List.find P (rev [lo..hi]) = Some e"
proof (induction "nat (hi - e)" arbitrary: hi)
  case 0
  then have "hi = e" by simp
  with 0 show ?case by (simp add: upto_rec2)
next
  case (Suc m)
  then have lt: "e < hi" by linarith
  then have up: "[lo..hi] = [lo..hi - 1] @ [hi]" using Suc.prems by (simp add: upto_rec2)
  have "\<not> P hi" using Suc.prems lt by simp
  moreover have "List.find P (rev [lo..hi - 1]) = Some e"
    using Suc.hyps(2) Suc.prems lt by (intro Suc.hyps(1)) auto
  ultimately show ?case by (simp add: up)
qed

lemma find_rev_upto_none:
  "(\<forall>j. lo \<le> j \<and> j \<le> hi \<longrightarrow> \<not> P j) \<Longrightarrow> List.find P (rev [lo..hi]) = None"
  by (simp add: find_None_iff)

text \<open>
  C3. Location of the end-of-central-directory record. The candidate offsets run from
  \<open>length - 22\<close> down to \<open>max 0 (length - min length (65535 + 22))\<close>, four bytes are
  read at each as a little-endian number and compared with \<open>0x06054B50\<close>. An offset
  \<open>e\<close> of the window that matches, with no match at any higher offset of the window, is
  the one the search returns, and the entry count and directory offset are read from it
  (at \<open>e + 10\<close> and \<open>e + 16\<close>), whatever matches lie below it. If no offset of the
  window matches, the search returns \<open>-1\<close> and the result is the empty list, with no
  further parsing.
\<close>

theorem eocd_location:
  "(max 0 (int (length view) - min (int (length view)) (65535 + 22)) \<le> e
      \<and> e \<le> int (length view) - 22
      \<and> le32 view e = 0x06054b50
      \<and> (\<forall>j. e < j \<and> j \<le> int (length view) - 22 \<longrightarrow> le32 view j \<noteq> 0x06054b50)
    \<longrightarrow> scan_eocd view (int (length view) - min (int (length view)) (65535 + 22))
            (int (length view) - 22) = Inr e
      \<and> getZipFileList_try view
          = walk_entries view (le16 view (e + 10)) 0 (le32 view (e + 16)) [])
   \<and> ((\<forall>j. max 0 (int (length view) - min (int (length view)) (65535 + 22)) \<le> j
            \<and> j \<le> int (length view) - 22 \<longrightarrow> le32 view j \<noteq> 0x06054b50)
    \<longrightarrow> scan_eocd view (int (length view) - min (int (length view)) (65535 + 22))
            (int (length view) - 22) = Inr (- 1)
      \<and> getZipFileList_try view = Inr [] \<and> getZipFileList view = [])"
proof (intro conjI impI)
  assume a: "max 0 (int (length view) - min (int (length view)) (65535 + 22)) \<le> e
      \<and> e \<le> int (length view) - 22
      \<and> le32 view e = 0x06054b50
      \<and> (\<forall>j. e < j \<and> j \<le> int (length view) - 22 \<longrightarrow> le32 view j \<noteq> 0x06054b50)"
  then have f: "List.find (eocd_signature_at view) (eocd_candidates view) = Some e"
    unfolding eocd_candidates_def Let_def
    by (intro find_rev_upto) (simp_all add: eocd_signature_at_def)
  show "scan_eocd view (int (length view) - min (int (length view)) (65535 + 22))
            (int (length view) - 22) = Inr e"
    using scan_eocd_top [of view] f by simp
  show "getZipFileList_try view
          = walk_entries view (le16 view (e + 10)) 0 (le32 view (e + 16)) []"
    by (simp add: try_find f)
next
  assume a: "\<forall>j. max 0 (int (length view) - min (int (length view)) (65535 + 22)) \<le> j
            \<and> j \<le> int (length view) - 22 \<longrightarrow> le32 view j \<noteq> 0x06054b50"
  then have f: "List.find (eocd_signature_at view) (eocd_candidates view) = None"
    unfolding eocd_candidates_def Let_def
    by (intro find_rev_upto_none) (simp add: eocd_signature_at_def)
  show "scan_eocd view (int (length view) - min (int (length view)) (65535 + 22))
            (int (length view) - 22) = Inr (- 1)"
    using scan_eocd_top [of view] f by simp
  show t: "getZipFileList_try view = Inr []"
    by (simp add: try_find f)
  show "getZipFileList view = []"
    by (simp add: getZipFileList_def t)
qed

text \<open>Two buffers: one with the signature at offsets 0 and 4 of a 27-byte buffer, where
  the window is \<open>0..5\<close> and offset 4 is chosen; one of 23 zero bytes, with no match.\<close>

theorem eocd_location_witness:
  "max 0 (int (length two_signatures) - min (int (length two_signatures)) (65535 + 22)) \<le> 4
   \<and> 4 \<le> int (length two_signatures) - 22
   \<and> le32 two_signatures 4 = 0x06054b50
   \<and> le32 two_signatures 5 \<noteq> 0x06054b50
   \<and> le32 two_signatures 0 = 0x06054b50
   \<and> scan_eocd two_signatures
         (int (length two_signatures) - min (int (length two_signatures)) (65535 + 22))
         (int (length two_signatures) - 22) = Inr 4
   \<and> le32 no_signature 0 \<noteq> 0x06054b50
   \<and> le32 no_signature 1 \<noteq> 0x06054b50
   \<and> getZipFileList no_signature = []"
proof -
  have h1: "max 0 (int (length two_signatures) - min (int (length two_signatures)) (65535 + 22)) \<le> 4
      \<and> 4 \<le> int (length two_signatures) - 22
      \<and> le32 two_signatures 4 = 0x06054b50"
    by (simp add: two_signatures_def le32_def)
  have h2: "\<forall>j. 4 < j \<and> j \<le> int (length two_signatures) - 22
            \<longrightarrow> le32 two_signatures j \<noteq> 0x06054b50"
  proof (intro allI impI)
    fix j :: int assume "4 < j \<and> j \<le> int (length two_signatures) - 22"
    then have "j = 5" by (simp add: two_signatures_def)
    then show "le32 two_signatures j \<noteq> 0x06054b50"
      by (simp add: two_signatures_def le32_def)
  qed
  have h3: "le32 two_signatures 0 = 0x06054b50"
    by (simp add: two_signatures_def le32_def)
  have h4: "\<forall>j. max 0 (int (length no_signature) - min (int (length no_signature)) (65535 + 22)) \<le> j
            \<and> j \<le> int (length no_signature) - 22 \<longrightarrow> le32 no_signature j \<noteq> 0x06054b50"
  proof (intro allI impI)
    fix j :: int
    assume "max 0 (int (length no_signature) - min (int (length no_signature)) (65535 + 22)) \<le> j
            \<and> j \<le> int (length no_signature) - 22"
    then have "j = 0 \<or> j = 1" by (auto simp: no_signature_def)
    then show "le32 no_signature j \<noteq> 0x06054b50"
      by (auto simp: no_signature_def le32_def)
  qed
  have h5: "le32 two_signatures 5 \<noteq> 0x06054b50"
    "le32 no_signature 0 \<noteq> 0x06054b50" "le32 no_signature 1 \<noteq> 0x06054b50"
    by (simp_all add: two_signatures_def no_signature_def le32_def)
  show ?thesis
    using eocd_location [of two_signatures 4] eocd_location [of no_signature 0] h1 h2 h3 h4 h5
    by blast
qed

text \<open>
  C10. A buffer shorter than 22 bytes: the starting offset \<open>length - 22\<close> is already
  below the lower bound of the loop, so the list of candidate offsets is empty, the loop
  body is never entered (the search returns its initial \<open>-1\<close>), and the result is the
  empty list.
\<close>

theorem short_buffer:
  assumes "length view < 22"
  shows "int (length view) - 22 < int (length view) - min (int (length view)) (65535 + 22)
     \<and> eocd_candidates view = []
     \<and> scan_eocd view (int (length view) - min (int (length view)) (65535 + 22))
            (int (length view) - 22) = Inr (- 1)
     \<and> getZipFileList_try view = Inr [] \<and> getZipFileList view = []"
proof -
  have c: "eocd_candidates view = []"
    using assms by (simp add: eocd_candidates_def Let_def)
  have g: "int (length view) - 22 < int (length view) - min (int (length view)) (65535 + 22)"
    using assms by simp
  have s: "scan_eocd view (int (length view) - min (int (length view)) (65535 + 22))
            (int (length view) - 22) = Inr (- 1)"
    using scan_eocd_top [of view] c by simp
  have t: "getZipFileList_try view = Inr []"
    by (simp add: try_find c)
  show ?thesis using c g s t by (simp add: getZipFileList_def)
qed

text \<open>Four bytes that are the signature itself: still no candidate offset.\<close>

theorem short_buffer_witness:
  "length [0x50, 0x4B, 0x05, 0x06 :: byte] < 22
   \<and> getZipFileList [0x50, 0x4B, 0x05, 0x06] = []"
  using short_buffer [of "[0x50, 0x4B, 0x05, 0x06]"] by simp

section \<open>Evaluating the example buffers\<close>


lemma overdeclared_archive_bytes:
  "overdeclared_archive = [0x50, 0x4B, 0x01, 0x02,
     0, 0, 0, 0, 0, 0, 0, 0, 0, 0, 0, 0, 0, 0, 0, 0, 0, 0, 0, 0, 0, 0, 0, 0,
     8, 0, 0, 0, 0, 0,
     0, 0, 0, 0, 0, 0, 0, 0, 0, 0, 0, 0,
     0x74, 0x65, 0x73, 0x74, 0x2E, 0x74, 0x78, 0x74,
     0x50, 0x4B, 0x05, 0x06, 0, 0, 0, 0, 3, 0, 3, 0, 54, 0, 0, 0, 0, 0, 0, 0, 0, 0]"
  by (simp add: overdeclared_archive_def encode_entry_def eocd_record_def test_entry_def
      le16_bytes_def le32_bytes_def)

lemma broken_name_archive_bytes:
  "broken_name_archive = [0x50, 0x4B, 0x01, 0x02,
     0, 0, 0, 0, 0, 0, 0, 0, 0, 0, 0, 0, 0, 0, 0, 0, 0, 0, 0, 0, 0, 0, 0, 0,
     3, 0, 0, 0, 0, 0,
     0, 0, 0, 0, 0, 0, 0, 0, 0, 0, 0, 0,
     0x61, 0xFF, 0x62,
     0x50, 0x4B, 0x05, 0x06, 0, 0, 0, 0, 1, 0, 1, 0, 49, 0, 0, 0, 0, 0, 0, 0, 0, 0]"
  by (simp add: broken_name_archive_def broken_name_entry_def encode_entry_def eocd_record_def
      test_entry_def le16_bytes_def le32_bytes_def)

lemma long_name_archive_bytes:
  "long_name_archive = [0x50, 0x4B, 0x01, 0x02,
     0, 0, 0, 0, 0, 0, 0, 0, 0, 0, 0, 0, 0, 0, 0, 0, 0, 0, 0, 0, 0, 0, 0, 0,
     8, 0, 0, 0, 0, 0,
     0, 0, 0, 0, 0, 0, 0, 0, 0, 0, 0, 0,
     0x74, 0x65, 0x73, 0x74, 0x2E, 0x74, 0x78, 0x74,
     0x50, 0x4B, 0x01, 0x02,
     0, 0, 0, 0, 0, 0, 0, 0, 0, 0, 0, 0, 0, 0, 0, 0, 0, 0, 0, 0, 0, 0, 0, 0,
     30, 0, 0, 0, 0, 0,
     0, 0, 0, 0, 0, 0, 0, 0, 0, 0, 0, 0,
     0x50, 0x4B, 0x05, 0x06, 0, 0, 0, 0, 2, 0, 2, 0, 100, 0, 0, 0, 0, 0, 0, 0, 0, 0]"
  by (simp add: long_name_archive_def long_name_header_def encode_entry_def eocd_record_def
      test_entry_def le16_bytes_def le32_bytes_def)

lemma test_name: "utf8_decode [0x74, 0x65, 0x73, 0x74, 0x2E, 0x74, 0x78, 0x74]
   = [0x74, 0x65, 0x73, 0x74, 0x2E, 0x74, 0x78, 0x74]"
  by (simp add: utf8_decode_def to_utf16_def)

section \<open>The walk stops softly\<close>

lemma located:
  assumes "max 0 (int (length view) - min (int (length view)) (65535 + 22)) \<le> e"
    and "e \<le> int (length view) - 22"
    and "le32 view e = 0x06054b50"
    and "\<forall>j. e < j \<and> j \<le> int (length view) - 22 \<longrightarrow> le32 view j \<noteq> 0x06054b50"
  shows "getZipFileList_try view
           = walk_entries view (le16 view (e + 10)) 0 (le32 view (e + 16)) []"
proof -
  have "List.find (eocd_signature_at view) (eocd_candidates view) = Some e"
    unfolding eocd_candidates_def Let_def
    using assms by (intro find_rev_upto) (simp_all add: eocd_signature_at_def)
  then show ?thesis by (simp add: try_find)
qed

text \<open>
  C5. Fail-soft truncation of the walk. The record found at \<open>e\<close> declares more entries
  than the buffer holds: the first \<open>k\<close> cursors, fewer than the declared count, pass
  the bounds check (cursor plus 46 within the buffer) and the signature check, and the
  next cursor fails one of them. Then the body completes without an exception and the
  result is exactly the names of those \<open>k\<close> headers, in order, and nothing after them.
\<close>

theorem walk_truncated:
  assumes "max 0 (int (length view) - min (int (length view)) (65535 + 22)) \<le> e"
    and "e \<le> int (length view) - 22"
    and "le32 view e = 0x06054b50"
    and "\<forall>j. e < j \<and> j \<le> int (length view) - 22 \<longrightarrow> le32 view j \<noteq> 0x06054b50"
    and "int k < le16 view (e + 10)"
    and "\<forall>j<k. hdr_ok view (nth_cursor view (le32 view (e + 16)) j)"
    and "\<not> hdr_ok view (nth_cursor view (le32 view (e + 16)) k)"
  shows "getZipFileList_try view
           = Inr (map (\<lambda>j. hdr_name view (nth_cursor view (le32 view (e + 16)) j)) [0..<k])
       \<and> getZipFileList view
           = map (\<lambda>j. hdr_name view (nth_cursor view (le32 view (e + 16)) j)) [0..<k]"
proof -
  have f: "List.find (eocd_signature_at view) (eocd_candidates view) = Some e"
    unfolding eocd_candidates_def Let_def
    using assms(1-4) by (intro find_rev_upto) (simp_all add: eocd_signature_at_def)
  have nn: "0 \<le> nth_cursor view (le32 view (e + 16)) k"
    using nth_cursor_ge [of "le32 view (e + 16)" view k] le32_nonneg [of view "e + 16"]
    by linarith
  have "getZipFileList_try view
        = walk_entries view (le16 view (e + 10)) 0 (le32 view (e + 16)) []"
    by (simp add: try_find f)
  also have "\<dots> = walk_entries view (le16 view (e + 10)) (0 + int k)
        (nth_cursor view (le32 view (e + 16)) k)
        ([] @ map (\<lambda>j. hdr_name view (nth_cursor view (le32 view (e + 16)) j)) [0..<k])"
    using assms(5,6) by (intro walk_prefix) simp_all
  also have "\<dots> = Inr ([] @ map (\<lambda>j. hdr_name view (nth_cursor view (le32 view (e + 16)) j)) [0..<k])"
    using nn assms(7) by (rule walk_stop)
  finally have t: "getZipFileList_try view
      = Inr (map (\<lambda>j. hdr_name view (nth_cursor view (le32 view (e + 16)) j)) [0..<k])"
    by simp
  then show ?thesis by (simp add: getZipFileList_def)
qed

text \<open>The \<open>test.txt\<close> archive with a declared count of 3: one header is walked, the
  second cursor (54) fails the bounds check, and the result is the one name.\<close>

theorem walk_truncated_witness:
  "le32 overdeclared_archive 54 = 0x06054b50
   \<and> int 1 < le16 overdeclared_archive (54 + 10)
   \<and> hdr_ok overdeclared_archive 0
   \<and> \<not> hdr_ok overdeclared_archive 54
   \<and> getZipFileList overdeclared_archive = [[0x74, 0x65, 0x73, 0x74, 0x2E, 0x74, 0x78, 0x74]]"
proof -
  have len: "length overdeclared_archive = 76" by (simp add: overdeclared_archive_bytes)
  have lo: "max 0 (int (length overdeclared_archive)
      - min (int (length overdeclared_archive)) (65535 + 22)) \<le> 54"
    by (simp add: len)
  have hi: "54 \<le> int (length overdeclared_archive) - 22" by (simp add: len)
  have sig: "le32 overdeclared_archive 54 = 0x06054b50"
    by (simp add: overdeclared_archive_bytes le32_def)
  have top: "\<forall>j. 54 < j \<and> j \<le> int (length overdeclared_archive) - 22
      \<longrightarrow> le32 overdeclared_archive j \<noteq> 0x06054b50"
    by (simp add: len)
  have cnt: "int 1 < le16 overdeclared_archive (54 + 10)"
    by (simp add: overdeclared_archive_bytes le16_def)
  have cdo: "le32 overdeclared_archive 70 = 0"
    by (simp add: overdeclared_archive_bytes le32_def)
  have ok0: "hdr_ok overdeclared_archive 0"
    by (simp add: overdeclared_archive_bytes hdr_ok_def le32_def)
  have nx: "hdr_next overdeclared_archive 0 = 54"
    by (simp add: overdeclared_archive_bytes hdr_next_def le16_def)
  have bad: "\<not> hdr_ok overdeclared_archive 54"
    by (simp add: hdr_ok_def len)
  have nm: "hdr_name overdeclared_archive 0 = [0x74, 0x65, 0x73, 0x74, 0x2E, 0x74, 0x78, 0x74]"
    by (simp add: overdeclared_archive_bytes hdr_name_def le16_def subarray_def test_name)
  have before: "\<forall>j<1. hdr_ok overdeclared_archive
      (nth_cursor overdeclared_archive (le32 overdeclared_archive (54 + 16)) j)"
    by (simp add: cdo nth_cursor_def ok0)
  have at: "\<not> hdr_ok overdeclared_archive
      (nth_cursor overdeclared_archive (le32 overdeclared_archive (54 + 16)) 1)"
    by (simp add: cdo nth_cursor_def nx bad)
  have "getZipFileList overdeclared_archive
      = map (\<lambda>j. hdr_name overdeclared_archive
          (nth_cursor overdeclared_archive (le32 overdeclared_archive (54 + 16)) j)) [0..<1]"
    using walk_truncated [OF lo hi sig top cnt before at] by simp
  then have "getZipFileList overdeclared_archive = [[0x74, 0x65, 0x73, 0x74, 0x2E, 0x74, 0x78, 0x74]]"
    by (simp add: cdo nth_cursor_def nm)
  with sig cnt ok0 bad show ?thesis by simp
qed

lemma subarray_clamped:
  assumes "0 \<le> b" "b \<le> int (length u8)" "int (length u8) \<le> e"
  shows "subarray u8 b e = drop (nat b) u8"
  using assms by (simp add: subarray_def Let_def min_def)

lemma walk_clamped:
  assumes "hdr_ok view off"
    and "int (length view) < off + 46 + le16 view (off + 28)"
    and "i < n"
  shows "walk_entries view n i off files = Inr (files @ [utf8_decode (drop (nat (off + 46)) view)])"
    and "int (length view) < hdr_next view off + 46"
proof -
  from assms(1) have b: "0 \<le> off" "off + 46 \<le> int (length view)"
    by (simp_all add: hdr_ok_def)
  have nm: "hdr_name view off = utf8_decode (drop (nat (off + 46)) view)"
    unfolding hdr_name_def using b assms(2) by (subst subarray_clamped) simp_all
  show far: "int (length view) < hdr_next view off + 46"
    using assms(2) le16_range [of view "off + 30"] le16_range [of view "off + 32"]
    by (simp add: hdr_next_def)
  then have nok: "\<not> hdr_ok view (hdr_next view off)" by (simp add: hdr_ok_def)
  have nn: "0 \<le> hdr_next view off" using b hdr_next_ge [of off view] by linarith
  have "walk_entries view n i off files
        = walk_entries view n (i + 1) (hdr_next view off) (files @ [hdr_name view off])"
    by (rule walk_step [OF assms(1,3)])
  also have "\<dots> = Inr (files @ [hdr_name view off])"
    using nn nok by (rule walk_stop)
  finally show "walk_entries view n i off files
      = Inr (files @ [utf8_decode (drop (nat (off + 46)) view)])"
    using nm by simp
qed

text \<open>
  C8. A name field that runs past the end of the buffer is clamped, not rejected. The
  record found at \<open>e\<close> declares more than \<open>k\<close> entries, the first \<open>k\<close> cursors
  are accepted, and at cursor \<open>k\<close> the 46-byte prefix of the header lies in the buffer
  and its signature is valid, but the cursor plus 46 plus the name length exceeds the
  buffer length. Then \<open>getZipFileList\<close> returns the \<open>k\<close> names before it and one
  more name for that header, decoded from the bytes from the cursor plus 46 to the end
  of the buffer only; the walk ends there, because the next cursor plus 46 is past the
  end of the buffer, so a further iteration stops at its bounds check.
\<close>

theorem name_clamped:
  assumes "max 0 (int (length view) - min (int (length view)) (65535 + 22)) \<le> e"
    and "e \<le> int (length view) - 22"
    and "le32 view e = 0x06054b50"
    and "\<forall>j. e < j \<and> j \<le> int (length view) - 22 \<longrightarrow> le32 view j \<noteq> 0x06054b50"
    and "int k < le16 view (e + 10)"
    and "\<forall>j<k. hdr_ok view (nth_cursor view (le32 view (e + 16)) j)"
    and "hdr_ok view (nth_cursor view (le32 view (e + 16)) k)"
    and "int (length view) < nth_cursor view (le32 view (e + 16)) k + 46
           + le16 view (nth_cursor view (le32 view (e + 16)) k + 28)"
  shows "getZipFileList_try view
           = Inr (map (\<lambda>j. hdr_name view (nth_cursor view (le32 view (e + 16)) j)) [0..<k]
                  @ [utf8_decode (drop (nat (nth_cursor view (le32 view (e + 16)) k + 46)) view)])
       \<and> getZipFileList view
           = map (\<lambda>j. hdr_name view (nth_cursor view (le32 view (e + 16)) j)) [0..<k]
             @ [utf8_decode (drop (nat (nth_cursor view (le32 view (e + 16)) k + 46)) view)]
       \<and> int (length view) < hdr_next view (nth_cursor view (le32 view (e + 16)) k) + 46"
proof -
  have "getZipFileList_try view
        = walk_entries view (le16 view (e + 10)) 0 (le32 view (e + 16)) []"
    using assms(1-4) by (rule located)
  also have "\<dots> = walk_entries view (le16 view (e + 10)) (0 + int k)
        (nth_cursor view (le32 view (e + 16)) k)
        ([] @ map (\<lambda>j. hdr_name view (nth_cursor view (le32 view (e + 16)) j)) [0..<k])"
    using assms(5,6) by (intro walk_prefix) simp_all
  also have "\<dots> = Inr (([] @ map (\<lambda>j. hdr_name view (nth_cursor view (le32 view (e + 16)) j)) [0..<k])
       @ [utf8_decode (drop (nat (nth_cursor view (le32 view (e + 16)) k + 46)) view)])"
    using assms(7,8,5) by (intro walk_clamped(1)) simp_all
  finally have t: "getZipFileList_try view
      = Inr (map (\<lambda>j. hdr_name view (nth_cursor view (le32 view (e + 16)) j)) [0..<k]
                  @ [utf8_decode (drop (nat (nth_cursor view (le32 view (e + 16)) k + 46)) view)])"
    by simp
  have "int (length view) < hdr_next view (nth_cursor view (le32 view (e + 16)) k) + 46"
    using assms(7,8,5) by (intro walk_clamped(2) [where i = "int k" and n = "le16 view (e + 10)"]) simp_all
  with t show ?thesis by (simp add: getZipFileList_def)
qed

text \<open>The \<open>test.txt\<close> header, then a header that declares a name of 30 bytes, then the
  record: only the 22 bytes of the record are left for the name.\<close>

theorem name_clamped_witness:
  "le32 long_name_archive 100 = 0x06054b50
   \<and> int 1 < le16 long_name_archive (100 + 10)
   \<and> hdr_ok long_name_archive 0
   \<and> hdr_ok long_name_archive 54
   \<and> int (length long_name_archive) < 54 + 46 + le16 long_name_archive (54 + 28)
   \<and> getZipFileList long_name_archive
       = [[0x74, 0x65, 0x73, 0x74, 0x2E, 0x74, 0x78, 0x74],
          [0x50, 0x4B, 0x05, 0x06, 0, 0, 0, 0, 2, 0, 2, 0, 100, 0, 0, 0, 0, 0, 0, 0, 0, 0]]"
proof -
  have len: "length long_name_archive = 122" by (simp add: long_name_archive_bytes)
  have lo: "max 0 (int (length long_name_archive)
      - min (int (length long_name_archive)) (65535 + 22)) \<le> 100"
    by (simp add: len)
  have hi: "100 \<le> int (length long_name_archive) - 22" by (simp add: len)
  have sig: "le32 long_name_archive 100 = 0x06054b50"
    by (simp add: long_name_archive_bytes le32_def)
  have top: "\<forall>j. 100 < j \<and> j \<le> int (length long_name_archive) - 22
      \<longrightarrow> le32 long_name_archive j \<noteq> 0x06054b50"
    by (simp add: len)
  have cnt: "int 1 < le16 long_name_archive (100 + 10)"
    by (simp add: long_name_archive_bytes le16_def)
  have cdo: "le32 long_name_archive 116 = 0"
    by (simp add: long_name_archive_bytes le32_def)
  have ok0: "hdr_ok long_name_archive 0"
    by (simp add: long_name_archive_bytes hdr_ok_def le32_def)
  have nx: "hdr_next long_name_archive 0 = 54"
    by (simp add: long_name_archive_bytes hdr_next_def le16_def)
  have ok1: "hdr_ok long_name_archive 54"
    by (simp add: long_name_archive_bytes hdr_ok_def le32_def)
  have far: "int (length long_name_archive) < 54 + 46 + le16 long_name_archive (54 + 28)"
    by (simp add: long_name_archive_bytes le16_def)
  have nm: "hdr_name long_name_archive 0 = [0x74, 0x65, 0x73, 0x74, 0x2E, 0x74, 0x78, 0x74]"
    by (simp add: long_name_archive_bytes hdr_name_def le16_def subarray_def test_name)
  have cl: "utf8_decode (drop 100 long_name_archive)
      = [0x50, 0x4B, 0x05, 0x06, 0, 0, 0, 0, 2, 0, 2, 0, 100, 0, 0, 0, 0, 0, 0, 0, 0, 0]"
    by (simp add: long_name_archive_bytes utf8_decode_def to_utf16_def)
  have c1: "nth_cursor long_name_archive (le32 long_name_archive (100 + 16)) 1 = 54"
    by (simp add: cdo nth_cursor_def nx)
  have before: "\<forall>j<1. hdr_ok long_name_archive
      (nth_cursor long_name_archive (le32 long_name_archive (100 + 16)) j)"
    by (simp add: cdo nth_cursor_def ok0)
  have at: "hdr_ok long_name_archive
      (nth_cursor long_name_archive (le32 long_name_archive (100 + 16)) 1)"
    by (simp only: c1 ok1)
  have far': "int (length long_name_archive)
      < nth_cursor long_name_archive (le32 long_name_archive (100 + 16)) 1 + 46
        + le16 long_name_archive
            (nth_cursor long_name_archive (le32 long_name_archive (100 + 16)) 1 + 28)"
    using far by (simp only: c1)
  have "getZipFileList long_name_archive
      = map (\<lambda>j. hdr_name long_name_archive
          (nth_cursor long_name_archive (le32 long_name_archive (100 + 16)) j)) [0..<1]
        @ [utf8_decode (drop (nat (nth_cursor long_name_archive
              (le32 long_name_archive (100 + 16)) 1 + 46)) long_name_archive)]"
    using name_clamped [OF lo hi sig top cnt before at far'] by simp
  then have "getZipFileList long_name_archive
       = [[0x74, 0x65, 0x73, 0x74, 0x2E, 0x74, 0x78, 0x74],
          [0x50, 0x4B, 0x05, 0x06, 0, 0, 0, 0, 2, 0, 2, 0, 100, 0, 0, 0, 0, 0, 0, 0, 0, 0]]"
    by (simp add: cdo nth_cursor_def nx nm cl)
  with sig cnt ok0 ok1 far show ?thesis by (intro conjI)
qed

section \<open>Names and headers\<close>

lemma walk_counts:
  assumes "0 \<le> off"
  shows "\<exists>k. walk_entries view n i off files
             = Inr (files @ map (\<lambda>j. hdr_name view (nth_cursor view off j)) [0..<k])
           \<and> (\<forall>j<k. hdr_ok view (nth_cursor view off j))
           \<and> int k \<le> max 0 (n - i)
           \<and> (int k = max 0 (n - i) \<or> \<not> hdr_ok view (nth_cursor view off k))"
proof -
  define N where "N = nat (n - i)"
  define k where "k = (LEAST j. j = N \<or> \<not> hdr_ok view (nth_cursor view off j))"
  have ex: "k = N \<or> \<not> hdr_ok view (nth_cursor view off k)"
    unfolding k_def by (rule LeastI [of _ N]) simp
  have le: "k \<le> N"
    unfolding k_def by (rule Least_le) simp
  have before: "\<forall>j<k. hdr_ok view (nth_cursor view off j)"
  proof (intro allI impI)
    fix j assume "j < k"
    then have "\<not> (j = N \<or> \<not> hdr_ok view (nth_cursor view off j))"
      unfolding k_def by (rule not_less_Least)
    then show "hdr_ok view (nth_cursor view off j)" by simp
  qed
  have kn: "int k \<le> n - i \<or> k = 0" using le by (auto simp: N_def)
  have nn: "0 \<le> nth_cursor view off k"
    using nth_cursor_ge [of off view k] assms by linarith
  have pre: "walk_entries view n i off files
      = walk_entries view n (i + int k) (nth_cursor view off k)
          (files @ map (\<lambda>j. hdr_name view (nth_cursor view off j)) [0..<k])"
  proof (cases "k = 0")
    case True
    then show ?thesis by (simp add: nth_cursor_def)
  next
    case False
    with kn have "int k \<le> n - i" by simp
    with before show ?thesis by (rule walk_prefix)
  qed
  have fin: "walk_entries view n (i + int k) (nth_cursor view off k)
          (files @ map (\<lambda>j. hdr_name view (nth_cursor view off j)) [0..<k])
      = Inr (files @ map (\<lambda>j. hdr_name view (nth_cursor view off j)) [0..<k])"
  proof (cases "k = N")
    case True
    then have "\<not> i + int k < n" by (simp add: N_def)
    then show ?thesis by (rule walk_done)
  next
    case False
    with ex have "\<not> hdr_ok view (nth_cursor view off k)" by simp
    with nn show ?thesis by (rule walk_stop)
  qed
  have "int k \<le> max 0 (n - i)" using le by (simp add: N_def)
  moreover have "int k = max 0 (n - i) \<or> \<not> hdr_ok view (nth_cursor view off k)"
    using ex by (auto simp: N_def max_def)
  ultimately show ?thesis using pre fin before by auto
qed

lemma byte_bound: "unat (x :: byte) < 256"
  using unsigned_less [of x, where 'a = nat] by simp

lemma run_clean_wf:
  "needed = 0 \<or> seen < needed \<Longrightarrow> 0xFFFD \<notin> set (utf8_run cp seen needed lo hi bs)
   \<Longrightarrow> wf_utf8 (needed - seen) lo hi bs"
proof (induction cp seen needed lo hi bs rule: utf8_run.induct)
  case (1 cp seen needed lo hi)
  then show ?case by (auto split: if_splits)
next
  case (2 cp seen needed lo hi b bs)
  show ?case
  proof (cases "needed = 0")
    case True
    with 2 show ?thesis by (auto split: if_splits)
  next
    case False
    with "2.prems" have lt: "seen < needed" by simp
    from False "2.prems"(2) have rng: "lo \<le> b" "b \<le> hi"
      by (auto split: if_splits)
    show ?thesis
    proof (cases "seen + 1 = needed")
      case True
      with False rng "2.prems"(2)
      have "0xFFFD \<notin> set (utf8_run 0 0 0 0x80 0xBF bs)"
        by (auto simp: Let_def split: if_splits)
      with "2.IH"(8) [OF False _ refl] True rng
      have "wf_utf8 0 0x80 0xBF bs" by auto
      with True False rng lt show ?thesis by simp
    next
      case ne: False
      with False rng "2.prems"(2)
      have "0xFFFD \<notin> set (utf8_run (cp * 64 + b mod 64) (seen + 1) needed 0x80 0xBF bs)"
        by (auto simp: Let_def split: if_splits)
      moreover have "seen + 1 < needed" using lt ne by simp
      ultimately have "wf_utf8 (needed - (seen + 1)) 0x80 0xBF bs"
        using "2.IH"(7) [OF False _ refl] rng ne by auto
      with False rng lt show ?thesis by simp
    qed
  qed
qed

lemma replacement_survives:
  assumes "0xFFFD \<in> set (utf8_run 0 0 0 0x80 0xBF (map unat bs))"
  shows "0xFFFD \<in> set (utf8_decode bs)"
proof -
  have keep: "0xFFFD \<in> set cs \<Longrightarrow> 0xFFFD \<in> set (strip_bom cs)" for cs
    by (cases cs) auto
  have unit: "to_utf16 0xFFFD = [0xFFFD]" by (simp add: to_utf16_def)
  from assms have "0xFFFD \<in> set (strip_bom (utf8_run 0 0 0 0x80 0xBF (map unat bs)))"
    by (rule keep)
  then have "(0xFFFD :: code_unit) \<in> set (to_utf16 0xFFFD) \<and> 0xFFFD
      \<in> set (strip_bom (utf8_run 0 0 0 0x80 0xBF (map unat bs)))"
    by (simp add: unit)
  then show ?thesis unfolding utf8_decode_def by auto
qed

lemma ill_formed_replaced:
  assumes "\<not> well_formed_utf8 bs"
  shows "0xFFFD \<in> set (utf8_decode bs)"
proof (rule ccontr)
  assume "0xFFFD \<notin> set (utf8_decode bs)"
  then have "0xFFFD \<notin> set (utf8_run 0 0 0 0x80 0xBF (map unat bs))"
    using replacement_survives by blast
  then have "wf_utf8 (0 - 0) 0x80 0xBF (map unat bs)"
    by (intro run_clean_wf) simp_all
  with assms show False by (simp add: well_formed_utf8_def)
qed

lemma run_ascii:
  "\<forall>x\<in>set xs. x < 0x80 \<Longrightarrow>
   utf8_run 0 0 0 0x80 0xBF (xs @ rest) = xs @ utf8_run 0 0 0 0x80 0xBF rest"
  by (induction xs) simp_all

lemma run_pending_ascii:
  assumes "needed \<noteq> 0" "0x80 \<le> lo" "\<forall>y\<in>set ys. y < 0x80"
  shows "utf8_run cp seen needed lo hi ys = 0xFFFD # ys"
proof (cases ys)
  case Nil
  with assms(1) show ?thesis by simp
next
  case (Cons y ys')
  with assms(3) have y: "y < 0x80" "\<forall>x\<in>set ys'. x < 0x80" by simp_all
  then have "utf8_run 0 0 0 0x80 0xBF ([y] @ ys') = [y] @ utf8_run 0 0 0 0x80 0xBF ys'"
    by (intro run_ascii) simp
  moreover have "utf8_run 0 0 0 0x80 0xBF (ys' @ []) = ys' @ utf8_run 0 0 0 0x80 0xBF []"
    using y(2) by (rule run_ascii)
  ultimately have "utf8_run 0 0 0 0x80 0xBF (y # ys') = y # ys'" by simp
  moreover have "y < lo" using y(1) assms(2) by simp
  ultimately show ?thesis using assms(1) Cons by simp
qed

lemma run_lone:
  assumes "0x80 \<le> b" "\<forall>y\<in>set ys. y < 0x80"
  shows "utf8_run 0 0 0 0x80 0xBF (b # ys) = 0xFFFD # ys"
proof -
  have plain: "utf8_run 0 0 0 0x80 0xBF ys = ys"
    using run_ascii [OF assms(2), of "[]"] by simp
  have p: "utf8_run cp 0 needed lo hi ys = 0xFFFD # ys"
    if "needed \<noteq> 0" "0x80 \<le> lo" for cp needed lo hi
    using that assms(2) by (rule run_pending_ascii)
  have nl: "\<not> b \<le> 0x7F" using assms(1) by simp
  show ?thesis
    using nl by (simp add: plain p)
qed

lemma lone_byte_replaced:
  fixes xs ys :: bytes and b :: byte
  assumes "\<forall>x\<in>set xs. x < 0x80" "0x80 \<le> b" "\<forall>y\<in>set ys. y < 0x80"
  shows "utf8_decode (xs @ b # ys) = map ucast xs @ 0xFFFD # map ucast ys"
proof -
  have xs: "\<forall>x\<in>set (map unat xs). x < 0x80"
    using assms(1) by (auto simp: word_less_nat_alt)
  have ys: "\<forall>y\<in>set (map unat ys). y < 0x80"
    using assms(3) by (auto simp: word_less_nat_alt)
  have b: "0x80 \<le> unat b" using assms(2) by (simp add: word_le_nat_alt)
  have run: "utf8_run 0 0 0 0x80 0xBF (map unat (xs @ b # ys))
      = map unat xs @ 0xFFFD # map unat ys"
    using run_ascii [OF xs, of "unat b # map unat ys"] run_lone [OF b ys] by simp
  have bom: "strip_bom (map unat xs @ 0xFFFD # map unat ys) = map unat xs @ 0xFFFD # map unat ys"
  proof (cases xs)
    case Nil
    then show ?thesis by simp
  next
    case (Cons x xs')
    with xs have "unat x \<noteq> 0xFEFF" by auto
    with Cons show ?thesis by simp
  qed
  have u: "concat (map to_utf16 (map unat zs)) = map ucast zs" for zs :: bytes
  proof (induction zs)
    case Nil
    show ?case by simp
  next
    case (Cons z zs)
    have "unat z < 0x10000" using byte_bound [of z] by simp
    then show ?case using Cons by (simp add: to_utf16_def)
  qed
  have r: "to_utf16 0xFFFD = [0xFFFD]" by (simp add: to_utf16_def)
  show ?thesis
    unfolding utf8_decode_def run bom
    using u [of xs] u [of ys] by (simp add: r)
qed

lemma nth_cursor_Suc:
  "nth_cursor view start (Suc j)
   = nth_cursor view start j + 46 + le16 view (nth_cursor view start j + 28)
     + le16 view (nth_cursor view start j + 30) + le16 view (nth_cursor view start j + 32)"
  by (simp add: nth_cursor_def hdr_next_def)

text \<open>
  C9. One name per accepted header, whatever its bytes. For a buffer whose record is
  found at \<open>e\<close>, \<open>getZipFileList\<close> returns \<open>k\<close> names for the \<open>k\<close> headers
  it walked: the cursors start at the directory offset, each of the \<open>k\<close> cursors passes
  the bounds and signature checks and gives exactly one name, the decoding of its name
  bytes, each next cursor is the cursor plus 46 plus the name, extra-field and comment
  lengths, and the walk ends when the declared count is used up or a header is rejected.
  The decoding never fails and never drops a name: a name that is not well-formed UTF-8
  decodes to a string that holds U+FFFD, and a byte of \<open>0x80\<close> or more standing alone
  between ASCII bytes is replaced by U+FFFD in place, the bytes around it kept.
\<close>

theorem one_name_per_header:
  "(max 0 (int (length view) - min (int (length view)) (65535 + 22)) \<le> e
      \<and> e \<le> int (length view) - 22
      \<and> le32 view e = 0x06054b50
      \<and> (\<forall>j. e < j \<and> j \<le> int (length view) - 22 \<longrightarrow> le32 view j \<noteq> 0x06054b50)
    \<longrightarrow> (\<exists>k. getZipFileList_try view
              = Inr (map (\<lambda>j. utf8_decode
                       (subarray view (nth_cursor view (le32 view (e + 16)) j + 46)
                          (nth_cursor view (le32 view (e + 16)) j + 46
                           + le16 view (nth_cursor view (le32 view (e + 16)) j + 28))))
                     [0..<k])
            \<and> getZipFileList view
              = map (\<lambda>j. utf8_decode
                       (subarray view (nth_cursor view (le32 view (e + 16)) j + 46)
                          (nth_cursor view (le32 view (e + 16)) j + 46
                           + le16 view (nth_cursor view (le32 view (e + 16)) j + 28))))
                     [0..<k]
            \<and> length (getZipFileList view) = k
            \<and> nth_cursor view (le32 view (e + 16)) 0 = le32 view (e + 16)
            \<and> (\<forall>j<k. hdr_ok view (nth_cursor view (le32 view (e + 16)) j)
                  \<and> nth_cursor view (le32 view (e + 16)) (Suc j)
                      = nth_cursor view (le32 view (e + 16)) j + 46
                        + le16 view (nth_cursor view (le32 view (e + 16)) j + 28)
                        + le16 view (nth_cursor view (le32 view (e + 16)) j + 30)
                        + le16 view (nth_cursor view (le32 view (e + 16)) j + 32))
            \<and> int k \<le> le16 view (e + 10)
            \<and> (int k = le16 view (e + 10)
                \<or> \<not> hdr_ok view (nth_cursor view (le32 view (e + 16)) k))))
   \<and> (\<not> well_formed_utf8 bs \<longrightarrow> 0xFFFD \<in> set (utf8_decode bs))
   \<and> ((\<forall>x\<in>set xs. x < 0x80) \<and> 0x80 \<le> b \<and> (\<forall>y\<in>set ys. y < 0x80)
        \<longrightarrow> utf8_decode (xs @ b # ys) = map ucast xs @ 0xFFFD # map ucast ys)"
proof (intro conjI impI)
  assume a: "max 0 (int (length view) - min (int (length view)) (65535 + 22)) \<le> e
      \<and> e \<le> int (length view) - 22
      \<and> le32 view e = 0x06054b50
      \<and> (\<forall>j. e < j \<and> j \<le> int (length view) - 22 \<longrightarrow> le32 view j \<noteq> 0x06054b50)"
  define c where "c = le32 view (e + 16)"
  define n where "n = le16 view (e + 10)"
  have n0: "0 \<le> n" using le16_range [of view "e + 10"] by (simp add: n_def)
  have c0: "0 \<le> c" using le32_nonneg [of view "e + 16"] by (simp add: c_def)
  have t: "getZipFileList_try view = walk_entries view n 0 c []"
    unfolding n_def c_def using a by (intro located) simp_all
  obtain k where k: "walk_entries view n 0 c []
             = Inr ([] @ map (\<lambda>j. hdr_name view (nth_cursor view c j)) [0..<k])"
      "\<forall>j<k. hdr_ok view (nth_cursor view c j)"
      "int k \<le> max 0 (n - 0)"
      "int k = max 0 (n - 0) \<or> \<not> hdr_ok view (nth_cursor view c k)"
    using walk_counts [OF c0, of view n 0 "[]"] by blast
  have names: "map (\<lambda>j. hdr_name view (nth_cursor view c j)) [0..<k]
      = map (\<lambda>j. utf8_decode (subarray view (nth_cursor view c j + 46)
                    (nth_cursor view c j + 46 + le16 view (nth_cursor view c j + 28)))) [0..<k]"
    by (simp add: hdr_name_def)
  have t': "getZipFileList_try view
      = Inr (map (\<lambda>j. utf8_decode (subarray view (nth_cursor view c j + 46)
                    (nth_cursor view c j + 46 + le16 view (nth_cursor view c j + 28)))) [0..<k])"
    using t k(1) names by simp
  then have g: "getZipFileList view
      = map (\<lambda>j. utf8_decode (subarray view (nth_cursor view c j + 46)
                    (nth_cursor view c j + 46 + le16 view (nth_cursor view c j + 28)))) [0..<k]"
    by (simp add: getZipFileList_def)
  have len: "length (getZipFileList view) = k" by (simp add: g)
  have z: "nth_cursor view c 0 = c" by (simp add: nth_cursor_def)
  have adv: "\<forall>j<k. hdr_ok view (nth_cursor view c j)
      \<and> nth_cursor view c (Suc j) = nth_cursor view c j + 46
          + le16 view (nth_cursor view c j + 28) + le16 view (nth_cursor view c j + 30)
          + le16 view (nth_cursor view c j + 32)"
    using k(2) nth_cursor_Suc by blast
  have b1: "int k \<le> n" using k(3) n0 by simp
  have b2: "int k = n \<or> \<not> hdr_ok view (nth_cursor view c k)" using k(4) n0 by simp
  show "\<exists>k. getZipFileList_try view
              = Inr (map (\<lambda>j. utf8_decode
                       (subarray view (nth_cursor view (le32 view (e + 16)) j + 46)
                          (nth_cursor view (le32 view (e + 16)) j + 46
                           + le16 view (nth_cursor view (le32 view (e + 16)) j + 28))))
                     [0..<k])
            \<and> getZipFileList view
              = map (\<lambda>j. utf8_decode
                       (subarray view (nth_cursor view (le32 view (e + 16)) j + 46)
                          (nth_cursor view (le32 view (e + 16)) j + 46
                           + le16 view (nth_cursor view (le32 view (e + 16)) j + 28))))
                     [0..<k]
            \<and> length (getZipFileList view) = k
            \<and> nth_cursor view (le32 view (e + 16)) 0 = le32 view (e + 16)
            \<and> (\<forall>j<k. hdr_ok view (nth_cursor view (le32 view (e + 16)) j)
                  \<and> nth_cursor view (le32 view (e + 16)) (Suc j)
                      = nth_cursor view (le32 view (e + 16)) j + 46
                        + le16 view (nth_cursor view (le32 view (e + 16)) j + 28)
                        + le16 view (nth_cursor view (le32 view (e + 16)) j + 30)
                        + le16 view (nth_cursor view (le32 view (e + 16)) j + 32))
            \<and> int k \<le> le16 view (e + 10)
            \<and> (int k = le16 view (e + 10)
                \<or> \<not> hdr_ok view (nth_cursor view (le32 view (e + 16)) k))"
    using t' g len z adv b1 b2 unfolding c_def n_def by (intro exI [of _ k] conjI)
next
  assume "\<not> well_formed_utf8 bs"
  then show "0xFFFD \<in> set (utf8_decode bs)" by (rule ill_formed_replaced)
next
  assume "(\<forall>x\<in>set xs. x < 0x80) \<and> 0x80 \<le> b \<and> (\<forall>y\<in>set ys. y < 0x80)"
  then show "utf8_decode (xs @ b # ys) = map ucast xs @ 0xFFFD # map ucast ys"
    by (intro lone_byte_replaced) simp_all
qed

text \<open>An archive whose only entry has the name \<open>a\<close>, \<open>0xFF\<close>, \<open>b\<close>.\<close>

theorem one_name_per_header_witness:
  "le32 broken_name_archive 49 = 0x06054b50
   \<and> hdr_ok broken_name_archive 0
   \<and> subarray broken_name_archive 46 49 = [0x61, 0xFF, 0x62]
   \<and> \<not> well_formed_utf8 [0x61, 0xFF, 0x62]
   \<and> 0xFFFD \<in> set (utf8_decode [0x61, 0xFF, 0x62])
   \<and> utf8_decode [0x61, 0xFF, 0x62] = [0x61, 0xFFFD, 0x62]
   \<and> getZipFileList broken_name_archive = [[0x61, 0xFFFD, 0x62]]"
proof -
  note inst = one_name_per_header [of broken_name_archive 49 "[0x61, 0xFF, 0x62]" "[0x61]" "0xFF" "[0x62]"]
  have len: "length broken_name_archive = 71" by (simp add: broken_name_archive_bytes)
  have sig: "le32 broken_name_archive 49 = 0x06054b50"
    by (simp add: broken_name_archive_bytes le32_def)
  have loc: "max 0 (int (length broken_name_archive)
        - min (int (length broken_name_archive)) (65535 + 22)) \<le> 49
      \<and> 49 \<le> int (length broken_name_archive) - 22
      \<and> le32 broken_name_archive 49 = 0x06054b50
      \<and> (\<forall>j. 49 < j \<and> j \<le> int (length broken_name_archive) - 22
            \<longrightarrow> le32 broken_name_archive j \<noteq> 0x06054b50)"
    by (simp add: len sig)
  have cnt: "le16 broken_name_archive 59 = 1"
    by (simp add: broken_name_archive_bytes le16_def)
  have cdo: "le32 broken_name_archive 65 = 0"
    by (simp add: broken_name_archive_bytes le32_def)
  have ok: "hdr_ok broken_name_archive 0"
    by (simp add: broken_name_archive_bytes hdr_ok_def le32_def)
  have nl: "le16 broken_name_archive 28 = 3"
    by (simp add: broken_name_archive_bytes le16_def)
  have nm: "subarray broken_name_archive 46 49 = [0x61, 0xFF, 0x62]"
    by (simp add: broken_name_archive_bytes subarray_def)
  have ill: "\<not> well_formed_utf8 [0x61, 0xFF, 0x62]"
    by (simp add: well_formed_utf8_def)
  have rep: "0xFFFD \<in> set (utf8_decode [0x61, 0xFF, 0x62])"
    using inst ill by blast
  have "(\<forall>x\<in>set [0x61 :: byte]. x < 0x80) \<and> (0x80 :: byte) \<le> 0xFF
      \<and> (\<forall>y\<in>set [0x62 :: byte]. y < 0x80)"
    by simp
  then have "utf8_decode ([0x61] @ 0xFF # [0x62]) = map ucast [0x61 :: byte] @ 0xFFFD # map ucast [0x62 :: byte]"
    using inst by blast
  then have dec: "utf8_decode [0x61, 0xFF, 0x62] = [0x61, 0xFFFD, 0x62]"
    by simp
  from inst loc obtain k where k:
    "getZipFileList broken_name_archive
       = map (\<lambda>j. utf8_decode
           (subarray broken_name_archive
              (nth_cursor broken_name_archive (le32 broken_name_archive (49 + 16)) j + 46)
              (nth_cursor broken_name_archive (le32 broken_name_archive (49 + 16)) j + 46
               + le16 broken_name_archive
                   (nth_cursor broken_name_archive (le32 broken_name_archive (49 + 16)) j + 28))))
         [0..<k]"
    "int k \<le> le16 broken_name_archive (49 + 10)"
    "int k = le16 broken_name_archive (49 + 10)
       \<or> \<not> hdr_ok broken_name_archive
            (nth_cursor broken_name_archive (le32 broken_name_archive (49 + 16)) k)"
    by blast
  have "k = 1"
  proof (rule ccontr)
    assume "k \<noteq> 1"
    with k(2) have "k = 0" by (simp add: cnt)
    with k(3) ok show False by (simp add: cnt cdo nth_cursor_def)
  qed
  with k(1) have "getZipFileList broken_name_archive = [[0x61, 0xFFFD, 0x62]]"
    by (simp add: cdo nth_cursor_def nl nm dec)
  with sig ok nm ill rep dec show ?thesis by (intro conjI)
qed

section \<open>Well-formed archives\<close>













section \<open>Empty and invalid input\<close>

lemma LF_ws: "js_whitespace LF" and CR_ws: "js_whitespace CR"
  by (simp_all add: js_whitespace_def LF_def CR_def)

lemma concat_push_unit: "concat (push_unit c ls) = c # concat ls"
  by (cases ls) simp_all

lemma strip_split:
  "strip_whitespace (concat (split_lines t)) = strip_whitespace t"
  by (induction t rule: split_lines.induct)
     (simp_all add: strip_whitespace_def concat_push_unit LF_ws CR_ws)

lemma strip_empty_iff: "strip_whitespace s = [] \<longleftrightarrow> (\<forall>c\<in>set s. js_whitespace c)"
  by (auto simp: strip_whitespace_def filter_empty_conv)

lemma stripped_content_empty_iff:
  "stripped_content t = [] \<longleftrightarrow> (\<forall>c\<in>set t. js_whitespace c)"
proof -
  have "stripped_content t = [] \<longleftrightarrow> (\<forall>c\<in>set (concat (rev (split_lines t))). js_whitespace c)"
    by (simp only: stripped_content_def strip_empty_iff)
  also have "\<dots> \<longleftrightarrow> (\<forall>c\<in>set (concat (split_lines t)). js_whitespace c)"
    by simp
  also have "\<dots> \<longleftrightarrow> strip_whitespace (concat (split_lines t)) = []"
    by (simp only: strip_empty_iff)
  also have "\<dots> \<longleftrightarrow> (\<forall>c\<in>set t. js_whitespace c)"
    by (simp only: strip_split strip_empty_iff)
  finally show ?thesis .
qed

lemma convert_unfold:
  "convertTextToZipBlob t =
     (if stripped_content t = [] then Inl EmptyInputError
      else (case atob (stripped_content t) of
              Inl _ \<Rightarrow> Inl InvalidEncodingError
            | Inr binaryString \<Rightarrow> Inr (map ucast binaryString)))"
  by (simp add: convertTextToZipBlob_def stripped_content_def Let_def)

text \<open>
  C7. Empty input. When the text reduces to the empty string after splitting into lines,
  reversal, concatenation and removal of all whitespace (in particular when every code
  unit of the text is whitespace, and so for the empty text), \<open>convertTextToZipBlob\<close>
  fails with the empty-input error; the test comes before the call of \<open>atob\<close>. It
  fails with that error in no other case.
\<close>

theorem empty_input:
  "(stripped_content t = [] \<longrightarrow> convertTextToZipBlob t = Inl EmptyInputError)
   \<and> ((\<forall>c\<in>set t. js_whitespace c) \<longrightarrow> convertTextToZipBlob t = Inl EmptyInputError)
   \<and> (convertTextToZipBlob t = Inl EmptyInputError \<longrightarrow> stripped_content t = [])"
proof (intro conjI impI)
  assume "stripped_content t = []"
  then show "convertTextToZipBlob t = Inl EmptyInputError" by (simp add: convert_unfold)
next
  assume "\<forall>c\<in>set t. js_whitespace c"
  then have "stripped_content t = []" by (simp only: stripped_content_empty_iff)
  then show "convertTextToZipBlob t = Inl EmptyInputError" by (simp add: convert_unfold)
next
  assume "convertTextToZipBlob t = Inl EmptyInputError"
  then show "stripped_content t = []"
    by (auto simp: convert_unfold split: if_splits sum.splits)
qed

text \<open>The empty text, and a text of a space, a line break and a tab.\<close>

theorem empty_input_witness:
  "stripped_content [] = []
   \<and> convertTextToZipBlob [] = Inl EmptyInputError
   \<and> js_whitespace 0x20 \<and> js_whitespace CR \<and> js_whitespace LF \<and> js_whitespace 0x09
   \<and> convertTextToZipBlob [0x20, CR, LF, 0x09] = Inl EmptyInputError"
proof -
  have e: "stripped_content [] = []"
    by (simp add: stripped_content_def strip_whitespace_def)
  have w: "js_whitespace 0x20" "js_whitespace CR" "js_whitespace LF" "js_whitespace 0x09"
    by (simp_all add: js_whitespace_def CR_def LF_def)
  then have a: "\<forall>c\<in>set [0x20, CR, LF, 0x09]. js_whitespace c" by simp
  show ?thesis
    using empty_input [of "[]"] empty_input [of "[0x20, CR, LF, 0x09]"] e w a by blast
qed

lemma ascii_is_js_whitespace: "ascii_whitespace c \<Longrightarrow> js_whitespace c"
  by (auto simp: ascii_whitespace_def js_whitespace_def)

lemma ascii_filter_stripped:
  "filter (\<lambda>c. \<not> ascii_whitespace c) (strip_whitespace s) = strip_whitespace s"
  unfolding strip_whitespace_def
  by (rule filter_True) (auto dest: ascii_is_js_whitespace)

lemma index_of_None_iff: "index_of c xs = None \<longleftrightarrow> c \<notin> set xs"
  by (induction xs) auto

lemma b64_value_None_iff: "b64_value c = None \<longleftrightarrow> c \<notin> set b64_alphabet"
  by (simp add: b64_value_def index_of_None_iff)

lemma those_values_None_iff:
  "those_values s = None \<longleftrightarrow> (\<exists>c\<in>set s. c \<notin> set b64_alphabet)"
  by (induction s) (auto simp: b64_value_None_iff [symmetric] split: option.splits)

lemma atob_stripped:
  "atob (stripped_content t) =
     (if length (strip_padding (stripped_content t)) mod 4 = 1 then Inl InvalidCharacterError
      else (case those_values (strip_padding (stripped_content t)) of
              None \<Rightarrow> Inl InvalidCharacterError
            | Some vs \<Rightarrow> Inr (map of_nat (decode_sextets vs))))"
  by (simp add: atob_def stripped_content_def ascii_filter_stripped Let_def)

lemma set_strip_padding: "set s \<subseteq> set (strip_padding s) \<union> {b64_pad}"
proof (cases "s = []")
  case True
  then show ?thesis by (simp add: strip_padding_def)
next
  case False
  then have s: "s = butlast s @ [last s]" by simp
  show ?thesis
  proof (cases "butlast s = []")
    case True
    with s have "set s = {last s}" by (metis append_Nil list.simps(15) empty_set)
    then show ?thesis by (auto simp: strip_padding_def)
  next
    case False
    then have b: "butlast s = butlast (butlast s) @ [last (butlast s)]" by simp
    have "set s = set (butlast (butlast s)) \<union> {last (butlast s), last s}"
      by (subst s, subst b) auto
    moreover have "set (butlast s) = set (butlast (butlast s)) \<union> {last (butlast s)}"
      by (subst b) auto
    ultimately show ?thesis by (auto simp: strip_padding_def)
  qed
qed

text \<open>
  C6, as amended. The claim says that every non-empty stripped string that is not valid
  standard base64 (invalid character, padding or length) fails with the invalid-encoding
  error. The code decodes with \<open>atob\<close>, which forgives missing padding, so the claim
  fails on unpadded input (the counterexample below). What holds: for a non-empty
  stripped string, the conversion fails with the invalid-encoding error exactly when the
  string, after the removal of one or two trailing \<open>=\<close> if its length is a multiple of
  four, has a length of 1 modulo 4 or holds a code unit outside the 64-character
  alphabet; in particular a code unit that is neither in the alphabet nor \<open>=\<close> always
  gives this failure.
\<close>

theorem invalid_encoding:
  "(stripped_content t \<noteq> [] \<longrightarrow>
      (convertTextToZipBlob t = Inl InvalidEncodingError
       \<longleftrightarrow> length (strip_padding (stripped_content t)) mod 4 = 1
           \<or> (\<exists>c\<in>set (strip_padding (stripped_content t)). c \<notin> set b64_alphabet)))
   \<and> ((\<exists>c\<in>set (stripped_content t). c \<notin> set b64_alphabet \<and> c \<noteq> b64_pad)
        \<longrightarrow> convertTextToZipBlob t = Inl InvalidEncodingError)"
proof (intro conjI impI)
  assume ne: "stripped_content t \<noteq> []"
  show "convertTextToZipBlob t = Inl InvalidEncodingError
       \<longleftrightarrow> length (strip_padding (stripped_content t)) mod 4 = 1
           \<or> (\<exists>c\<in>set (strip_padding (stripped_content t)). c \<notin> set b64_alphabet)"
    using ne
    by (auto simp: convert_unfold atob_stripped those_values_None_iff [symmetric]
        split: option.splits)
next
  assume "\<exists>c\<in>set (stripped_content t). c \<notin> set b64_alphabet \<and> c \<noteq> b64_pad"
  then obtain c where c: "c \<in> set (stripped_content t)" "c \<notin> set b64_alphabet" "c \<noteq> b64_pad"
    by blast
  then have ne: "stripped_content t \<noteq> []" by auto
  have "c \<in> set (strip_padding (stripped_content t))"
    using c(1,3) set_strip_padding [of "stripped_content t"] by auto
  with c(2) have "those_values (strip_padding (stripped_content t)) = None"
    by (auto simp: those_values_None_iff)
  then show "convertTextToZipBlob t = Inl InvalidEncodingError"
    using ne by (simp add: convert_unfold atob_stripped)
qed

lemma alphabet_units:
  "b64_alphabet = [0x41, 0x42, 0x43, 0x44, 0x45, 0x46, 0x47, 0x48, 0x49, 0x4A, 0x4B, 0x4C, 0x4D,
     0x4E, 0x4F, 0x50, 0x51, 0x52, 0x53, 0x54, 0x55, 0x56, 0x57, 0x58, 0x59, 0x5A,
     0x61, 0x62, 0x63, 0x64, 0x65, 0x66, 0x67, 0x68, 0x69, 0x6A, 0x6B, 0x6C, 0x6D,
     0x6E, 0x6F, 0x70, 0x71, 0x72, 0x73, 0x74, 0x75, 0x76, 0x77, 0x78, 0x79, 0x7A,
     0x30, 0x31, 0x32, 0x33, 0x34, 0x35, 0x36, 0x37, 0x38, 0x39, 0x2B, 0x2F]"
  by (simp add: b64_alphabet_def)

text \<open>The text \<open>QQ\<close>: two characters, no padding, so not valid padded base64; the
  conversion succeeds with the single byte \<open>0x41\<close>.\<close>

theorem invalid_encoding_counterexample:
  "stripped_content [0x51, 0x51] = [0x51, 0x51]
   \<and> \<not> rfc4648_valid [0x51, 0x51]
   \<and> convertTextToZipBlob [0x51, 0x51] = Inr [0x41]"
proof -
  have s: "stripped_content [0x51, 0x51] = [0x51, 0x51]"
    by (simp add: stripped_content_def strip_whitespace_def js_whitespace_def LF_def CR_def)
  have v: "\<not> rfc4648_valid [0x51, 0x51]"
    by (simp add: rfc4648_valid_def)
  have p: "strip_padding [0x51, 0x51] = [0x51, 0x51]"
    by (simp add: strip_padding_def)
  have q: "b64_value 0x51 = Some 16"
    by (simp add: b64_value_def alphabet_units)
  have "atob [0x51, 0x51] = Inr [0x41]"
    by (simp add: atob_def ascii_whitespace_def p q)
  then have "convertTextToZipBlob [0x51, 0x51] = Inr [0x41]"
    by (simp add: convert_unfold s)
  with s v show ?thesis by simp
qed

text \<open>The text \<open>Q\<close> (length 1 modulo 4) and the two lines \<open>!!!!\<close> and \<open>@@@@\<close>.\<close>

theorem invalid_encoding_witness:
  "stripped_content [0x51] \<noteq> []
   \<and> length (strip_padding (stripped_content [0x51])) mod 4 = 1
   \<and> convertTextToZipBlob [0x51] = Inl InvalidEncodingError
   \<and> 0x21 \<in> set (stripped_content [0x21, 0x21, 0x21, 0x21, LF, 0x40, 0x40, 0x40, 0x40])
   \<and> 0x21 \<notin> set b64_alphabet \<and> 0x21 \<noteq> b64_pad
   \<and> convertTextToZipBlob [0x21, 0x21, 0x21, 0x21, LF, 0x40, 0x40, 0x40, 0x40]
       = Inl InvalidEncodingError"
proof -
  have s1: "stripped_content [0x51] = [0x51]"
    by (simp add: stripped_content_def strip_whitespace_def js_whitespace_def LF_def)
  have l1: "length (strip_padding (stripped_content [0x51])) mod 4 = 1"
    by (simp add: s1 strip_padding_def b64_pad_def)
  have s2: "stripped_content [0x21, 0x21, 0x21, 0x21, LF, 0x40, 0x40, 0x40, 0x40]
      = [0x40, 0x40, 0x40, 0x40, 0x21, 0x21, 0x21, 0x21]"
    by (simp add: stripped_content_def strip_whitespace_def js_whitespace_def LF_def CR_def)
  have m: "0x21 \<in> set (stripped_content [0x21, 0x21, 0x21, 0x21, LF, 0x40, 0x40, 0x40, 0x40])"
    by (simp add: s2)
  have n: "(0x21 :: code_unit) \<notin> set b64_alphabet" "(0x21 :: code_unit) \<noteq> b64_pad"
    by (simp_all add: alphabet_units b64_pad_def)
  have c1: "convertTextToZipBlob [0x51] = Inl InvalidEncodingError"
    using invalid_encoding [of "[0x51]"] s1 l1 by simp
  have c2: "convertTextToZipBlob [0x21, 0x21, 0x21, 0x21, LF, 0x40, 0x40, 0x40, 0x40]
       = Inl InvalidEncodingError"
    using invalid_encoding [of "[0x21, 0x21, 0x21, 0x21, LF, 0x40, 0x40, 0x40, 0x40]"] m n
    by blast
  from s1 l1 c1 m n c2 show ?thesis by simp
qed

section \<open>The round trip\<close>

lemma encode_split: "b64_encode B = map b64_char (b64_sextets B) @ b64_padding B"
  by (induction B rule: b64_encode.induct) (simp_all add: Let_def)

lemma sextets_bound: "\<forall>v\<in>set (b64_sextets B). v < 64"
proof (induction B rule: b64_sextets.induct)
  case 1
  show ?case by simp
next
  case (2 x)
  have "unat x div 4 < 64" "unat x mod 4 * 16 < 64"
    using byte_bound [of x] by simp_all
  then show ?case by (simp add: Let_def)
next
  case (3 x y)
  have "unat x div 4 < 64" "unat x mod 4 * 16 + unat y div 16 < 64" "unat y mod 16 * 4 < 64"
    using byte_bound [of x] byte_bound [of y] by simp_all
  then show ?case by (simp add: Let_def)
next
  case (4 x y z rest)
  have "unat x div 4 < 64" "unat x mod 4 * 16 + unat y div 16 < 64"
    "unat y mod 16 * 4 + unat z div 64 < 64" "unat z mod 64 < 64"
    using byte_bound [of x] byte_bound [of y] byte_bound [of z] by simp_all
  with 4 show ?case by (simp add: Let_def)
qed

lemma regroup3_digits:
  "a1 * 262144 + (a0 * 16 + b1) * 4096 + (b0 * 4 + c1) * 64 + c0
   = (a1 * 4 + a0) * 65536 + (b1 * 16 + b0) * 256 + (c1 * 64 + (c0::nat))"
  by simp

lemma regroup3:
  "a div 4 * 262144 + (a mod 4 * 16 + b div 16) * 4096 + (b mod 16 * 4 + c div 64) * 64
     + c mod 64 = a * 65536 + b * 256 + (c::nat)"
  using regroup3_digits [of "a div 4" "a mod 4" "b div 16" "b mod 16" "c div 64" "c mod 64"]
  by (simp only: div_mult_mod_eq)

lemma decode_group4:
  assumes "a < 256" "b < 256" "c < (256::nat)"
  shows "decode_sextets (a div 4 # (a mod 4 * 16 + b div 16) # (b mod 16 * 4 + c div 64)
           # c mod 64 # rest) = a # b # c # decode_sextets rest"
proof -
  have n: "a div 4 * 262144 + (a mod 4 * 16 + b div 16) * 4096 + (b mod 16 * 4 + c div 64) * 64
         + c mod 64 = a * 65536 + b * 256 + c"
    by (rule regroup3)
  have k1: "(a * 65536 + b * 256 + c) div 65536 = a" using assms by simp
  have "(a * 65536 + b * 256 + c) div 256 = a * 256 + b" using assms by simp
  then have k2: "(a * 65536 + b * 256 + c) div 256 mod 256 = b" using assms by simp
  have e: "a * 65536 + b * 256 + c = c + 256 * (a * 256 + b)" by simp
  have k3: "(a * 65536 + b * 256 + c) mod 256 = c"
    by (subst e) (simp only: mod_mult_self2 mod_less assms)
  show ?thesis by (simp only: decode_sextets.simps Let_def n k1 k2 k3)
qed

lemma decode_group3:
  assumes "a < 256" "b < (256::nat)"
  shows "decode_sextets [a div 4, a mod 4 * 16 + b div 16, b mod 16 * 4] = [a, b]"
proof -
  have n: "a div 4 * 4096 + (a mod 4 * 16 + b div 16) * 64 + b mod 16 * 4
      = (a * 256 + b) * 4"
    using regroup3 [of a b 0] by simp
  have d: "(a div 4 * 4096 + (a mod 4 * 16 + b div 16) * 64 + b mod 16 * 4) div 4 = a * 256 + b"
    by (simp only: n) simp
  have k: "(a * 256 + b) div 256 = a" "(a * 256 + b) mod 256 = b" using assms by simp_all
  show ?thesis by (simp only: decode_sextets.simps Let_def d k)
qed

lemma decode_group2:
  assumes "a < (256::nat)"
  shows "decode_sextets [a div 4, a mod 4 * 16] = [a]"
proof -
  have "a div 4 * 64 + a mod 4 * 16 = a * 16"
    using div_mult_mod_eq [of a 4] by presburger
  then show ?thesis by simp
qed

lemma decode_sextets_roundtrip: "decode_sextets (b64_sextets B) = map unat B"
proof (induction B rule: b64_sextets.induct)
  case 1
  show ?case by simp
next
  case (2 x)
  show ?case using decode_group2 [OF byte_bound [of x]] by (simp add: Let_def)
next
  case (3 x y)
  show ?case using decode_group3 [OF byte_bound [of x] byte_bound [of y]] by (simp add: Let_def)
next
  case (4 x y z rest)
  show ?case
    using decode_group4 [OF byte_bound [of x] byte_bound [of y] byte_bound [of z],
        of "b64_sextets rest"] 4
    by (simp add: Let_def)
qed

lemma index_of_nth: "distinct xs \<Longrightarrow> i < length xs \<Longrightarrow> index_of (xs ! i) xs = Some i"
proof (induction xs arbitrary: i)
  case Nil
  then show ?case by simp
next
  case (Cons a xs)
  show ?case
  proof (cases i)
    case 0
    then show ?thesis by simp
  next
    case (Suc j)
    with Cons.prems have "j < length xs" "xs ! j \<noteq> a" by auto
    with Cons Suc show ?thesis by simp
  qed
qed

lemma alphabet_distinct: "distinct b64_alphabet"
  by (simp add: alphabet_units)

lemma alphabet_length: "length b64_alphabet = 64"
  by (simp add: alphabet_units)

lemma alphabet_plain: "\<forall>c\<in>set b64_alphabet. \<not> js_whitespace c \<and> c \<noteq> b64_pad"
  by (simp add: alphabet_units js_whitespace_def b64_pad_def)

lemma b64_char_value: "v < 64 \<Longrightarrow> b64_value (b64_char v) = Some v"
  by (simp add: b64_value_def b64_char_def index_of_nth alphabet_distinct alphabet_length)

lemma b64_char_plain:
  assumes "v < 64"
  shows "\<not> js_whitespace (b64_char v)" and "b64_char v \<noteq> b64_pad"
proof -
  have "b64_char v \<in> set b64_alphabet"
    using assms by (simp add: b64_char_def alphabet_length)
  then show "\<not> js_whitespace (b64_char v)" and "b64_char v \<noteq> b64_pad"
    using alphabet_plain by blast+
qed

lemma those_values_chars:
  "\<forall>v\<in>set vs. v < 64 \<Longrightarrow> those_values (map b64_char vs) = Some vs"
  by (induction vs) (simp_all add: b64_char_value)

lemma length_sextets_padding:
  "(length (b64_sextets B) + length (b64_padding B)) mod 4 = 0
   \<and> length (b64_sextets B) mod 4 \<noteq> 1
   \<and> b64_padding B \<in> {[], [b64_pad], [b64_pad, b64_pad]}"
  by (induction B rule: b64_sextets.induct) (simp_all add: Let_def)

lemma strip_padding_body:
  assumes "\<forall>c\<in>set body. c \<noteq> b64_pad"
    and "pad \<in> {[], [b64_pad], [b64_pad, b64_pad]}"
    and "(length body + length pad) mod 4 = 0"
  shows "strip_padding (body @ pad) = body"
proof -
  have lastb: "body \<noteq> [] \<Longrightarrow> last body \<noteq> b64_pad"
    using assms(1) last_in_set by blast
  consider "pad = []" | "pad = [b64_pad]" | "pad = [b64_pad, b64_pad]"
    using assms(2) by blast
  then show ?thesis
  proof cases
    case 1
    then show ?thesis using lastb by (auto simp: strip_padding_def)
  next
    case 2
    then have "butlast (body @ pad) = body" "last (body @ pad) = b64_pad" by simp_all
    then show ?thesis using lastb assms(3) 2 by (auto simp: strip_padding_def)
  next
    case 3
    then have "butlast (body @ pad) = body @ [b64_pad]" "last (body @ pad) = b64_pad"
      by (simp_all add: butlast_append)
    then show ?thesis using assms(3) 3 by (simp add: strip_padding_def)
  qed
qed

lemma encode_plain: "\<forall>c\<in>set (b64_encode B). \<not> js_whitespace c"
proof -
  have "\<not> js_whitespace b64_pad" by (simp add: js_whitespace_def b64_pad_def)
  moreover have "set (b64_padding B) \<subseteq> {b64_pad}"
    using length_sextets_padding [of B] by auto
  ultimately show ?thesis
    using sextets_bound [of B] b64_char_plain(1) by (auto simp: encode_split)
qed

lemma strip_encode: "strip_whitespace (b64_encode B) = b64_encode B"
  unfolding strip_whitespace_def using encode_plain [of B] by (simp add: filter_id_conv)

lemma encode_nonempty: "B \<noteq> [] \<Longrightarrow> b64_encode B \<noteq> []"
  by (induction B rule: b64_encode.induct) (simp_all add: Let_def)

lemma strip_padding_encode:
  "strip_padding (b64_encode B) = map b64_char (b64_sextets B)"
proof -
  have "\<forall>c\<in>set (map b64_char (b64_sextets B)). c \<noteq> b64_pad"
    using sextets_bound [of B] b64_char_plain(2) by auto
  then show ?thesis
    unfolding encode_split using length_sextets_padding [of B]
    by (intro strip_padding_body) simp_all
qed

lemma byte_of_unit: "ucast (of_nat (unat (x :: byte)) :: code_unit) = x"
proof -
  have "is_up (ucast :: byte \<Rightarrow> code_unit)" by (simp add: is_up)
  then have "ucast (ucast x :: code_unit) = x" by (rule ucast_up_ucast_id)
  then show ?thesis by simp
qed

lemma atob_encode:
  "atob (b64_encode B) = Inr (map (\<lambda>x. of_nat (unat x)) B)"
proof -
  have "filter (\<lambda>c. \<not> ascii_whitespace c) (b64_encode B) = b64_encode B"
    using encode_plain [of B] by (auto simp: filter_id_conv dest: ascii_is_js_whitespace)
  moreover have "those_values (map b64_char (b64_sextets B)) = Some (b64_sextets B)"
    using sextets_bound [of B] by (rule those_values_chars)
  moreover have "length (b64_sextets B) mod 4 \<noteq> 1"
    using length_sextets_padding [of B] by simp
  ultimately show ?thesis
    by (simp add: atob_def Let_def strip_padding_encode decode_sextets_roundtrip)
qed

lemma CR_LF_distinct: "CR \<noteq> LF"
  by (simp add: CR_def LF_def)

lemma split_lines_cons:
  "xs \<noteq> [] \<Longrightarrow> split_lines (c # xs) =
     (if c = LF then [] # split_lines xs
      else if c = CR \<and> hd xs = LF then [] # split_lines (tl xs)
      else push_unit c (split_lines xs))"
  by (cases xs) simp_all

lemma split_lines_plain: "LF \<notin> set l \<Longrightarrow> split_lines l = [l]"
  by (induction l rule: split_lines.induct) auto

lemma split_lines_LF:
  "LF \<notin> set l \<Longrightarrow> CR \<notin> set l \<Longrightarrow> split_lines (l @ LF # rest) = l # split_lines rest"
proof (induction l)
  case Nil
  show ?case by (cases rest) simp_all
next
  case (Cons c l)
  then show ?case by (auto simp: split_lines_cons)
qed

lemma split_lines_CRLF:
  "LF \<notin> set l \<Longrightarrow> CR \<notin> set l \<Longrightarrow> split_lines (l @ CR # LF # rest) = l # split_lines rest"
proof (induction l)
  case Nil
  show ?case by (simp add: CR_LF_distinct)
next
  case (Cons c l)
  then show ?case by (auto simp: split_lines_cons)
qed

lemma split_join_seps:
  assumes "\<forall>s\<in>set seps. s = [LF] \<or> s = [CR, LF]"
    and "length seps + 1 = length ls"
    and "\<forall>l\<in>set ls. LF \<notin> set l \<and> CR \<notin> set l"
  shows "split_lines (join_seps seps ls) = ls"
  using assms
proof (induction seps ls rule: join_seps.induct)
  case (1 seps)
  then show ?case by simp
next
  case (2 seps l)
  then show ?case by (simp add: split_lines_plain)
next
  case (3 l l' ls)
  then show ?case by simp
next
  case (4 s seps l l' ls)
  then have ih: "split_lines (join_seps seps (l' # ls)) = l' # ls" by simp
  from "4.prems" have l: "LF \<notin> set l" "CR \<notin> set l" by simp_all
  from "4.prems"(1) have "s = [LF] \<or> s = [CR, LF]" by simp
  then show ?case
  proof
    assume "s = [LF]"
    then show ?thesis using split_lines_LF [OF l] ih by simp
  next
    assume "s = [CR, LF]"
    then show ?thesis using split_lines_CRLF [OF l] ih by simp
  qed
qed

text \<open>
  C1, as amended. The claim is stated for every byte sequence; the empty one encodes to
  the empty string, which the code rejects as empty input (the counterexample below).
  What holds: for every non-empty byte sequence \<open>B\<close>, if the lines \<open>ls\<close> concatenate
  to the RFC 4648 encoding of \<open>B\<close> and the text is those lines in reversed order with
  a line break at each boundary, each one a line feed or a carriage return and line
  feed, then \<open>convertTextToZipBlob\<close> succeeds and returns exactly \<open>B\<close>.
\<close>

theorem round_trip:
  assumes "B \<noteq> []"
    and "concat ls = b64_encode B"
    and "length seps + 1 = length ls"
    and "\<forall>s\<in>set seps. s = [LF] \<or> s = [CR, LF]"
  shows "convertTextToZipBlob (join_seps seps (rev ls)) = Inr B"
proof -
  have ne: "b64_encode B \<noteq> []" using assms(1) by (rule encode_nonempty)
  have plain: "\<forall>l\<in>set (rev ls). LF \<notin> set l \<and> CR \<notin> set l"
  proof (intro ballI conjI notI)
    fix l assume l: "l \<in> set (rev ls)"
    { assume "LF \<in> set l"
      with l have "LF \<in> set (concat ls)" by auto
      then show False using encode_plain [of B] LF_ws by (simp add: assms(2)) }
    { assume "CR \<in> set l"
      with l have "CR \<in> set (concat ls)" by auto
      then show False using encode_plain [of B] CR_ws by (simp add: assms(2)) }
  qed
  have len: "length seps + 1 = length (rev ls)" using assms(3) by simp
  have "split_lines (join_seps seps (rev ls)) = rev ls"
    using assms(4) len plain by (rule split_join_seps)
  then have s: "stripped_content (join_seps seps (rev ls)) = b64_encode B"
    by (simp add: stripped_content_def assms(2) strip_encode)
  have "map ucast (map (\<lambda>x. of_nat (unat x) :: code_unit) B) = B"
    by (simp add: byte_of_unit comp_def del: of_nat_unat)
  then show ?thesis
    using ne by (simp add: convert_unfold s atob_encode del: of_nat_unat)
qed

text \<open>The empty byte sequence, encoded and split into one (empty) line.\<close>

theorem round_trip_counterexample:
  "concat [[]] = b64_encode []
   \<and> length ([] :: jsstring list) + 1 = length [[] :: jsstring]
   \<and> convertTextToZipBlob (join_seps [] (rev [[]])) = Inl EmptyInputError
   \<and> convertTextToZipBlob (join_seps [] (rev [[]])) \<noteq> Inr []"
  by (simp add: convert_unfold stripped_content_def strip_whitespace_def)

text \<open>The bytes of \<open>ABCFGH\<close>, encoded as \<open>QUJDRkdI\<close> and split into \<open>QUJ\<close>,
  \<open>DRk\<close> and \<open>dI\<close>: the text is \<open>dI\<close>, carriage return and line feed, \<open>DRk\<close>,
  line feed, \<open>QUJ\<close>. The second text is the encoding on a single line.\<close>

theorem round_trip_witness:
  "[0x41, 0x42, 0x43, 0x46, 0x47, 0x48 :: byte] \<noteq> []
   \<and> concat [[0x51, 0x55, 0x4A], [0x44, 0x52, 0x6B], [0x64, 0x49]]
       = b64_encode [0x41, 0x42, 0x43, 0x46, 0x47, 0x48]
   \<and> join_seps [[CR, LF], [LF]] (rev [[0x51, 0x55, 0x4A], [0x44, 0x52, 0x6B], [0x64, 0x49]])
       = [0x64, 0x49, CR, LF, 0x44, 0x52, 0x6B, LF, 0x51, 0x55, 0x4A]
   \<and> convertTextToZipBlob [0x64, 0x49, CR, LF, 0x44, 0x52, 0x6B, LF, 0x51, 0x55, 0x4A]
       = Inr [0x41, 0x42, 0x43, 0x46, 0x47, 0x48]
   \<and> convertTextToZipBlob [0x51, 0x55, 0x4A, 0x44, 0x52, 0x6B, 0x64, 0x49]
       = Inr [0x41, 0x42, 0x43, 0x46, 0x47, 0x48]"
proof -
  have ne: "[0x41, 0x42, 0x43, 0x46, 0x47, 0x48 :: byte] \<noteq> []" by simp
  have enc: "concat [[0x51, 0x55, 0x4A], [0x44, 0x52, 0x6B], [0x64, 0x49]]
       = b64_encode [0x41, 0x42, 0x43, 0x46, 0x47, 0x48]"
    by (simp add: b64_char_def alphabet_units)
  have enc1: "concat [[0x51, 0x55, 0x4A, 0x44, 0x52, 0x6B, 0x64, 0x49]]
       = b64_encode [0x41, 0x42, 0x43, 0x46, 0x47, 0x48]"
    by (simp add: b64_char_def alphabet_units)
  have j: "join_seps [[CR, LF], [LF]] (rev [[0x51, 0x55, 0x4A], [0x44, 0x52, 0x6B], [0x64, 0x49]])
       = [0x64, 0x49, CR, LF, 0x44, 0x52, 0x6B, LF, 0x51, 0x55, 0x4A]"
    by simp
  have "convertTextToZipBlob
      (join_seps [[CR, LF], [LF]] (rev [[0x51, 0x55, 0x4A], [0x44, 0x52, 0x6B], [0x64, 0x49]]))
       = Inr [0x41, 0x42, 0x43, 0x46, 0x47, 0x48]"
    by (rule round_trip [OF ne enc]) simp_all
  then have a: "convertTextToZipBlob [0x64, 0x49, CR, LF, 0x44, 0x52, 0x6B, LF, 0x51, 0x55, 0x4A]
       = Inr [0x41, 0x42, 0x43, 0x46, 0x47, 0x48]"
    by (simp only: j)
  have "convertTextToZipBlob
      (join_seps [] (rev [[0x51, 0x55, 0x4A, 0x44, 0x52, 0x6B, 0x64, 0x49]]))
       = Inr [0x41, 0x42, 0x43, 0x46, 0x47, 0x48]"
    by (rule round_trip [OF ne enc1]) simp_all
  then have b: "convertTextToZipBlob [0x51, 0x55, 0x4A, 0x44, 0x52, 0x6B, 0x64, 0x49]
       = Inr [0x41, 0x42, 0x43, 0x46, 0x47, 0x48]"
    by simp
  from ne enc j a b show ?thesis by (intro conjI)
qed

end
